theory Spec2Isabelle
  imports Complex_Main
begin

section \<open>The numbers of the program\<close>

text \<open>
  Every quantity of the design engine is a TypeScript \<^verbatim>\<open>number\<close>. The model keeps the
  special values of that type, which the code tests for (\<^verbatim>\<open>Number.isFinite\<close>, comparisons
  that are false on not-a-number), and reads every finite value as an exact real:
  rounding, overflow and underflow of the 64-bit format are not modelled, and neither is
  the sign of zero (a nonzero finite value divided by zero gives the infinity of the sign
  of the numerator, as a division by \<^verbatim>\<open>+0\<close> does). The theorems on the effective
  permittivity, on the radii of the circular patch and on the reverse solve of the circular
  patch are stated in a form that does not depend on this reading: they hold of the
  rounded arithmetic as well, for the reasons given with each of them.
\<close>

datatype number = Fin real | PInf | NInf | NaN

fun isFinite :: "number \<Rightarrow> bool" where
  "isFinite (Fin _) = True"
| "isFinite _ = False"

fun num_neg :: "number \<Rightarrow> number" where
  "num_neg (Fin x) = Fin (- x)"
| "num_neg PInf = NInf"
| "num_neg NInf = PInf"
| "num_neg NaN = NaN"

fun num_add :: "number \<Rightarrow> number \<Rightarrow> number" where
  "num_add (Fin x) (Fin y) = Fin (x + y)"
| "num_add NaN _ = NaN"
| "num_add _ NaN = NaN"
| "num_add PInf NInf = NaN"
| "num_add NInf PInf = NaN"
| "num_add PInf _ = PInf"
| "num_add _ PInf = PInf"
| "num_add NInf _ = NInf"
| "num_add _ NInf = NInf"

text \<open>The product of an infinity and \<open>y\<close>: not-a-number at zero, else by the signs.\<close>

definition inf_times :: "bool \<Rightarrow> real \<Rightarrow> number" where
  "inf_times pos y =
     (if y = 0 then NaN else if (0 < y) = pos then PInf else NInf)"

fun num_mul :: "number \<Rightarrow> number \<Rightarrow> number" where
  "num_mul (Fin x) (Fin y) = Fin (x * y)"
| "num_mul NaN _ = NaN"
| "num_mul _ NaN = NaN"
| "num_mul PInf (Fin y) = inf_times True y"
| "num_mul NInf (Fin y) = inf_times False y"
| "num_mul (Fin x) PInf = inf_times True x"
| "num_mul (Fin x) NInf = inf_times False x"
| "num_mul PInf PInf = PInf"
| "num_mul NInf NInf = PInf"
| "num_mul PInf NInf = NInf"
| "num_mul NInf PInf = NInf"

fun num_div :: "number \<Rightarrow> number \<Rightarrow> number" where
  "num_div (Fin x) (Fin y) =
     (if y \<noteq> 0 then Fin (x / y)
      else if x = 0 then NaN else if 0 < x then PInf else NInf)"
| "num_div NaN _ = NaN"
| "num_div _ NaN = NaN"
| "num_div (Fin x) _ = Fin 0"
| "num_div PInf (Fin y) = (if 0 \<le> y then PInf else NInf)"
| "num_div NInf (Fin y) = (if 0 \<le> y then NInf else PInf)"
| "num_div _ _ = NaN"

fun num_le :: "number \<Rightarrow> number \<Rightarrow> bool" where
  "num_le (Fin x) (Fin y) = (x \<le> y)"
| "num_le NaN _ = False"
| "num_le _ NaN = False"
| "num_le NInf _ = True"
| "num_le _ PInf = True"
| "num_le _ _ = False"

fun num_less :: "number \<Rightarrow> number \<Rightarrow> bool" where
  "num_less (Fin x) (Fin y) = (x < y)"
| "num_less NaN _ = False"
| "num_less _ NaN = False"
| "num_less PInf _ = False"
| "num_less _ NInf = False"
| "num_less _ _ = True"

fun num_abs :: "number \<Rightarrow> number" where
  "num_abs (Fin x) = Fin \<bar>x\<bar>"
| "num_abs NaN = NaN"
| "num_abs _ = PInf"

text \<open>
  The operators of the source are written with the usual symbols: \<open>x \<le> y\<close> is the
  comparison of the program (false as soon as one side is not-a-number), and
  \<open>x \<ge> y\<close>, \<open>x > y\<close> are \<open>y \<le> x\<close>, \<open>y < x\<close>, as in the language.
\<close>

instantiation number :: "{plus, minus, uminus, times, inverse, abs, ord}"
begin

definition plus_number :: "number \<Rightarrow> number \<Rightarrow> number" where
  "plus_number = num_add"

definition uminus_number :: "number \<Rightarrow> number" where
  "uminus_number = num_neg"

definition minus_number :: "number \<Rightarrow> number \<Rightarrow> number" where
  "minus_number x y = num_add x (num_neg y)"

definition times_number :: "number \<Rightarrow> number \<Rightarrow> number" where
  "times_number = num_mul"

definition divide_number :: "number \<Rightarrow> number \<Rightarrow> number" where
  "divide_number = num_div"

definition inverse_number :: "number \<Rightarrow> number" where
  "inverse_number = num_div (Fin 1)"

definition abs_number :: "number \<Rightarrow> number" where
  "abs_number = num_abs"

definition less_eq_number :: "number \<Rightarrow> number \<Rightarrow> bool" where
  "less_eq_number = num_le"

definition less_number :: "number \<Rightarrow> number \<Rightarrow> bool" where
  "less_number = num_less"

instance ..

end

subsection \<open>The functions of \<^verbatim>\<open>Math\<close> that the engine calls\<close>

fun Math_sqrt :: "number \<Rightarrow> number" where
  "Math_sqrt (Fin x) = (if x < 0 then NaN else Fin (sqrt x))"
| "Math_sqrt PInf = PInf"
| "Math_sqrt _ = NaN"

fun Math_log :: "number \<Rightarrow> number" where
  "Math_log (Fin x) = (if x < 0 then NaN else if x = 0 then NInf else Fin (ln x))"
| "Math_log PInf = PInf"
| "Math_log _ = NaN"

fun Math_log10 :: "number \<Rightarrow> number" where
  "Math_log10 (Fin x) =
     (if x < 0 then NaN else if x = 0 then NInf else Fin (log 10 x))"
| "Math_log10 PInf = PInf"
| "Math_log10 _ = NaN"

fun Math_sin :: "number \<Rightarrow> number" where
  "Math_sin (Fin x) = Fin (sin x)"
| "Math_sin _ = NaN"

fun Math_cos :: "number \<Rightarrow> number" where
  "Math_cos (Fin x) = Fin (cos x)"
| "Math_cos _ = NaN"

fun Math_acos :: "number \<Rightarrow> number" where
  "Math_acos (Fin x) = (if - 1 \<le> x \<and> x \<le> 1 then Fin (arccos x) else NaN)"
| "Math_acos _ = NaN"

text \<open>
  \<^verbatim>\<open>Math.pow(x, k)\<close> and \<^verbatim>\<open>x ** k\<close> for the exponents the engine uses, which are
  natural numbers (2, 3, and the order of a Bessel function). The exponent zero gives 1
  whatever the base, not-a-number included.
\<close>

fun Math_pow :: "number \<Rightarrow> nat \<Rightarrow> number" where
  "Math_pow x 0 = Fin 1"
| "Math_pow (Fin x) k = Fin (x ^ k)"
| "Math_pow PInf k = PInf"
| "Math_pow NInf k = (if odd k then NInf else PInf)"
| "Math_pow NaN k = NaN"

definition Math_PI :: number where
  "Math_PI = Fin pi"

section \<open>Constants (\<^verbatim>\<open>lib/constants\<close>)\<close>

definition C :: number where
  "C = Fin 299792458"

definition wavelength :: "number \<Rightarrow> number" where
  "wavelength frHz = C / frHz"

definition k0 :: "number \<Rightarrow> number" where
  "k0 frHz = (Fin 2 * Math_PI * frHz) / C"

section \<open>Bessel functions (\<^verbatim>\<open>lib/bessel.ts\<close>)\<close>

text \<open>
  The loop \<^verbatim>\<open>for (let i = 2; i <= k; i++) f *= i\<close> of \<^verbatim>\<open>factorial\<close>.
\<close>

function factorial_loop :: "int \<Rightarrow> int \<Rightarrow> number \<Rightarrow> number" where
  "factorial_loop k i f =
     (if i \<le> k then factorial_loop k (i + 1) (f * Fin (real_of_int i)) else f)"
  by pat_completeness auto
termination
  by (relation "measure (\<lambda>(k, i, f). nat (k + 1 - i))") auto

definition factorial :: "int \<Rightarrow> number" where
  "factorial k =
     (if k < 0 then NaN
      else if k = 0 \<or> k = 1 then Fin 1
      else factorial_loop k 2 (Fin 1))"

text \<open>
  The summation loop of \<^verbatim>\<open>besselJ\<close>, from iteration \<open>k\<close> on, with the running
  \<^verbatim>\<open>sum\<close> (here \<open>s\<close>) and \<^verbatim>\<open>term\<close>: at most 120 iterations, left early by the \<^verbatim>\<open>break\<close>.
\<close>

function besselJ_loop :: "int \<Rightarrow> number \<Rightarrow> nat \<Rightarrow> number \<Rightarrow> number \<Rightarrow> number" where
  "besselJ_loop n x2 k s term =
     (if k < 120 then
        (let sum' = s + term;
             term' = term * ((Fin (- 1) * (x2 * x2))
                       / (Fin (real (k + 1)) * Fin (real_of_int (n + int k + 1))))
         in if \<bar>term'\<bar> < Fin (1 / 10 ^ 16) * \<bar>sum'\<bar> then sum'
            else besselJ_loop n x2 (k + 1) sum' term')
      else s)"
  by pat_completeness auto
termination
  by (relation "measure (\<lambda>(n, x2, k, s, term). 120 - k)") auto

text \<open>
  The order \<open>n\<close> is an integer here, so the test \<^verbatim>\<open>n !== Math.floor(n)\<close> of the source,
  which rejects an order with a fractional part, is never true and is left out.
\<close>

definition besselJ :: "int \<Rightarrow> number \<Rightarrow> number" where
  "besselJ n x =
     (if \<not> isFinite x then NaN
      else if n < 0 then NaN
      else
        (let x2 = x / Fin 2;
             term0 = Math_pow x2 (nat n) / (factorial n * factorial n);
             term = (if n = 0 then Fin 1 else term0)
         in if \<not> isFinite term then Fin 0
            else besselJ_loop n x2 0 (Fin 0) term))"

definition besselJ0 :: "number \<Rightarrow> number" where
  "besselJ0 x = besselJ 0 x"

definition besselJ2 :: "number \<Rightarrow> number" where
  "besselJ2 x = besselJ 2 x"

section \<open>Quadrature (\<^verbatim>\<open>lib/integrate.ts\<close>)\<close>

text \<open>
  The loop of \<^verbatim>\<open>simpson\<close> from index \<open>i\<close> on, with the running \<^verbatim>\<open>sum\<close> (here \<open>s\<close>). The number of
  subintervals is a natural number.
\<close>

function simpson_loop ::
  "(number \<Rightarrow> number) \<Rightarrow> number \<Rightarrow> number \<Rightarrow> nat \<Rightarrow> nat \<Rightarrow> number \<Rightarrow> number" where
  "simpson_loop f a h n i s =
     (if i < n then
        (let x = a + Fin (real i) * h
         in simpson_loop f a h n (i + 1)
              (s + (if i mod 2 = 0 then Fin 2 * f x else Fin 4 * f x)))
      else s)"
  by pat_completeness auto
termination
  by (relation "measure (\<lambda>(f, a, h, n, i, s). n - i)") auto

definition simpson :: "(number \<Rightarrow> number) \<Rightarrow> number \<Rightarrow> number \<Rightarrow> nat \<Rightarrow> number" where
  "simpson f a b n0 =
     (let n = (if n0 mod 2 \<noteq> 0 then n0 + 1 else n0);
          h = (b - a) / Fin (real n);
          s = f a + f b
      in (h / Fin 3) * simpson_loop f a h n 1 s)"

function simpson2D_loop ::
  "(number \<Rightarrow> number \<Rightarrow> number) \<Rightarrow> number \<Rightarrow> number \<Rightarrow> number \<Rightarrow> number \<Rightarrow>
     nat \<Rightarrow> nat \<Rightarrow> nat \<Rightarrow> number \<Rightarrow> number" where
  "simpson2D_loop f a hOuter c d nOuter nInner i tot =
     (if i \<le> nOuter then
        (let x = a + Fin (real i) * hOuter;
             w = (if i = 0 \<or> i = nOuter then Fin 1
                  else if i mod 2 = 0 then Fin 2 else Fin 4);
             g = (\<lambda>y. f x y)
         in simpson2D_loop f a hOuter c d nOuter nInner (i + 1)
              (tot + w * simpson g c d nInner))
      else tot)"
  by pat_completeness auto
termination
  by (relation "measure (\<lambda>(f, a, hOuter, c, d, nOuter, nInner, i, tot). nOuter + 1 - i)")
    auto

definition simpson2D ::
  "(number \<Rightarrow> number \<Rightarrow> number) \<Rightarrow> number \<Rightarrow> number \<Rightarrow> number \<Rightarrow> number \<Rightarrow>
     nat \<Rightarrow> nat \<Rightarrow> number" where
  "simpson2D f a b c d nOuter nInner =
     (let hOuter = (b - a) / Fin (real nOuter)
      in (hOuter / Fin 3) * simpson2D_loop f a hOuter c d nOuter nInner 0 (Fin 0))"

section \<open>Rectangular patch (\<^verbatim>\<open>calculators/rectangularPatch\<close>)\<close>

definition safeBesselJ0 :: "number \<Rightarrow> number" where
  "safeBesselJ0 x = (let v = besselJ0 x in if isFinite v then v else Fin 0)"

definition effectiveEpsilon :: "number \<Rightarrow> number \<Rightarrow> number \<Rightarrow> number" where
  "effectiveEpsilon epsilonR W h =
     (epsilonR + Fin 1) / Fin 2
     + ((epsilonR - Fin 1) / Fin 2) * Fin 1 / Math_sqrt (Fin 1 + Fin 12 * h / W)"

text \<open>
  The \<^verbatim>\<open>const\<close>s of \<^verbatim>\<open>computeRectangularPatch\<close>, each as a function of the values it is
  computed from; the closures take the variables they capture as their first arguments.
\<close>

definition eps :: number where
  "eps = Fin (1 / 10 ^ 12)"

definition rect_W :: "number \<Rightarrow> number \<Rightarrow> number" where
  "rect_W frHz epsilonR = (C / (Fin 2 * frHz)) * Math_sqrt (Fin 2 / (epsilonR + Fin 1))"

definition rect_L :: "number \<Rightarrow> number \<Rightarrow> number \<Rightarrow> number \<Rightarrow> number" where
  "rect_L frHz hM W epsilonReff =
     (let num = (epsilonReff + Fin 0.3) * (W / hM + Fin 0.264);
          den = (epsilonReff - Fin 0.258) * (W / hM + Fin 0.8)
      in C / (Fin 2 * frHz * Math_sqrt epsilonReff) - Fin 0.824 * hM * (num / den))"

definition rect_L_eff :: "number \<Rightarrow> number \<Rightarrow> number" where
  "rect_L_eff frHz epsilonReff = C / (Fin 2 * frHz * Math_sqrt epsilonReff)"

definition integrandG1 :: "number \<Rightarrow> number \<Rightarrow> number \<Rightarrow> number" where
  "integrandG1 k0Val W theta =
     (let cosT = Math_cos theta;
          sinT = Math_sin theta
      in if \<bar>cosT\<bar> < eps then
           (let term = (k0Val * W) / Fin 2
            in term * term * Math_pow sinT 3)
         else
           (let arg = (k0Val * W / Fin 2) * cosT
            in Math_pow (Math_sin arg / cosT) 2 * Math_pow sinT 3))"

definition rect_G1 :: "number \<Rightarrow> number \<Rightarrow> number" where
  "rect_G1 k0Val W =
     (Fin 1 / (Fin 120 * Math_PI * Math_PI))
     * simpson (integrandG1 k0Val W) (Fin 0) Math_PI 512"

definition integrandG12 :: "number \<Rightarrow> number \<Rightarrow> number \<Rightarrow> number \<Rightarrow> number" where
  "integrandG12 k0Val W L theta =
     (let cosT = Math_cos theta;
          sinT = Math_sin theta;
          j0Arg = k0Val * L * sinT;
          j0Val = safeBesselJ0 j0Arg
      in if \<bar>cosT\<bar> < eps then
           (let term = (k0Val * W) / Fin 2
            in term * term * j0Val * Math_pow sinT 3)
         else
           (let arg = (k0Val * W / Fin 2) * cosT
            in Math_pow (Math_sin arg / cosT) 2 * j0Val * Math_pow sinT 3))"

definition rect_G12 :: "number \<Rightarrow> number \<Rightarrow> number \<Rightarrow> number" where
  "rect_G12 k0Val W L =
     (Fin 1 / (Fin 120 * Math_PI * Math_PI))
     * simpson (integrandG12 k0Val W L) (Fin 0) Math_PI 512"

definition integrandI1 :: "number \<Rightarrow> number \<Rightarrow> number \<Rightarrow> number \<Rightarrow> number \<Rightarrow> number" where
  "integrandI1 k0Val W L_eff theta phi =
     (let cosT = Math_cos theta;
          sinT = Math_sin theta;
          factor =
            (if \<bar>cosT\<bar> < eps then
               (let term = (k0Val * W) / Fin 2 in term * term)
             else
               (let arg = (k0Val * W / Fin 2) * cosT
                in Math_pow (Math_sin arg / cosT) 2));
          inner = (k0Val * L_eff / Fin 2) * sinT * Math_sin phi
      in factor * Math_pow sinT 3 * Math_pow (Math_cos inner) 2)"

definition rect_I1 :: "number \<Rightarrow> number \<Rightarrow> number \<Rightarrow> number" where
  "rect_I1 k0Val W L_eff =
     simpson2D (integrandI1 k0Val W L_eff) (Fin 0) Math_PI (Fin 0) Math_PI 128 128"

text \<open>The 50 ohm feed position, from the edge resistance and the length.\<close>

definition rect_y0_50ohm :: "number \<Rightarrow> number \<Rightarrow> number option" where
  "rect_y0_50ohm RinAtEdge L =
     (if RinAtEdge \<ge> Fin 50 \<and> RinAtEdge < Fin (10 ^ 10) then
        (let ratio = Fin 50 / RinAtEdge
         in if ratio \<le> Fin 1 \<and> ratio \<ge> Fin 0
            then Some ((L / Math_PI) * Math_acos (Math_sqrt ratio))
            else None)
      else None)"

section \<open>Circular patch (\<^verbatim>\<open>calculators/circularPatch\<close>)\<close>

definition safeBesselJ2 :: "number \<Rightarrow> number" where
  "safeBesselJ2 x = (let v = besselJ2 x in if isFinite v then v else Fin 0)"

definition F :: "number \<Rightarrow> number \<Rightarrow> number" where
  "F frHz epsilonR = Fin 87910000 / (frHz * Math_sqrt epsilonR)"

definition physicalRadius :: "number \<Rightarrow> number \<Rightarrow> number \<Rightarrow> number" where
  "physicalRadius FVal h epsilonR =
     (let lnArg = (Math_PI * FVal) / (Fin 2 * h) + Fin 1.7726;
          den = Fin 1 + (Fin 2 * h) / (Math_PI * epsilonR * FVal) * Math_log lnArg
      in FVal / Math_sqrt den)"

definition effectiveRadius :: "number \<Rightarrow> number \<Rightarrow> number \<Rightarrow> number" where
  "effectiveRadius a h epsilonR =
     (let lnArg = (Math_PI * a) / (Fin 2 * h) + Fin 1.7726;
          factor = Fin 1 + (Fin 2 * h) / (Math_PI * a * epsilonR) * Math_log lnArg
      in a * Math_sqrt factor)"

definition circ_integrand :: "number \<Rightarrow> number \<Rightarrow> number \<Rightarrow> number" where
  "circ_integrand k0Val a_e theta =
     (let sinT = Math_sin theta;
          cosT = Math_cos theta;
          x = k0Val * a_e * sinT;
          J02p = safeBesselJ0 x - safeBesselJ2 x;
          J02 = safeBesselJ0 x + safeBesselJ2 x
      in (J02p * J02p + cosT * cosT * J02 * J02) * sinT)"

text \<open>
  The two \<^verbatim>\<open>while\<close> loops that widen the bracket. A \<^verbatim>\<open>while\<close> loop need not end, so each
  is a partial function: \<open>None\<close> is a loop that runs forever.
\<close>

partial_function (option) expandFLow ::
  "number \<Rightarrow> number \<Rightarrow> number \<Rightarrow> number \<Rightarrow> number option" where
  "expandFLow aM hM epsilonR FLow =
     (if physicalRadius FLow hM epsilonR \<ge> aM \<and> FLow > Fin (1 / 10 ^ 7)
      then expandFLow aM hM epsilonR (FLow * Fin 0.5)
      else Some FLow)"

partial_function (option) expandFHigh ::
  "number \<Rightarrow> number \<Rightarrow> number \<Rightarrow> number \<Rightarrow> number option" where
  "expandFHigh aM hM epsilonR FHigh =
     (if physicalRadius FHigh hM epsilonR \<le> aM \<and> FHigh < Fin 0.5
      then expandFHigh aM hM epsilonR (FHigh * Fin 2)
      else Some FHigh)"

section \<open>The records of the two patch models\<close>

text \<open>
  The input and result interfaces of the source share field names; the shared fields are
  put in a common parent record, so that every field keeps the name the source gives it.
  \<open>PatchInput\<close> is both \<^verbatim>\<open>RectangularPatchInput\<close> and \<^verbatim>\<open>CircularPatchInput\<close>, which have
  the same three fields. A result that is \<^verbatim>\<open>null\<close> is \<open>None\<close>.
\<close>

record Substrate =
  epsilonR :: number
  hM :: number

record PatchInput = Substrate +
  frHz :: number

record RectangularPatchInputReverse = Substrate +
  WM :: number
  LM :: number

record CircularPatchInputReverse = Substrate +
  aM :: number

record Radiation =
  directivityD :: number
  directivityDBi :: number
  lambda0 :: number

record RectangularPatchResult = Radiation +
  W :: number
  L :: number
  L_eff :: number
  epsilonReff :: number
  G1 :: number
  G12 :: number
  RinAtEdge :: number
  y0_50ohm :: "number option"

record CircularPatchResult = Radiation +
  a :: number
  a_e :: number

section \<open>The solvers\<close>

definition computeRectangularPatch :: "PatchInput \<Rightarrow> RectangularPatchResult option" where
  "computeRectangularPatch input =
     (let frHz = frHz input; epsilonR = epsilonR input; hM = hM input
      in if frHz \<le> Fin 0 \<or> epsilonR < Fin 1 \<or> hM \<le> Fin 0 then None
         else
           (let lambda0 = wavelength frHz;
                k0Val = k0 frHz;
                W = rect_W frHz epsilonR;
                epsilonReff = effectiveEpsilon epsilonR W hM;
                L = rect_L frHz hM W epsilonReff;
                L_eff = rect_L_eff frHz epsilonReff;
                G1 = rect_G1 k0Val W;
                G12 = rect_G12 k0Val W L;
                Gsum = G1 + G12
            in if \<not> isFinite G1 \<or> \<not> isFinite G12 \<or> Gsum \<le> Fin 0 then None
               else
                 (let RinAtEdge = Fin 1 / (Fin 2 * Gsum);
                      y0_50ohm = rect_y0_50ohm RinAtEdge L;
                      I1 = rect_I1 k0Val W L_eff
                  in if \<not> isFinite I1 \<or> I1 \<le> Fin 0 then
                       Some \<lparr>directivityD = NaN, directivityDBi = NaN, lambda0 = lambda0,
                         W = W, L = L, L_eff = L_eff, epsilonReff = epsilonReff,
                         G1 = G1, G12 = G12, RinAtEdge = RinAtEdge, y0_50ohm = y0_50ohm\<rparr>
                     else
                       (let D = Math_pow ((Fin 2 * Math_PI * W) / lambda0) 2
                                  * (Math_PI / I1);
                            directivityDBi = Fin 10 * Math_log10 D
                        in Some \<lparr>directivityD = D, directivityDBi = directivityDBi,
                             lambda0 = lambda0,
                             W = W, L = L, L_eff = L_eff, epsilonReff = epsilonReff,
                             G1 = G1, G12 = G12, RinAtEdge = RinAtEdge,
                             y0_50ohm = y0_50ohm\<rparr>))))"

definition computeRectangularPatchReverse ::
  "RectangularPatchInputReverse \<Rightarrow> (number \<times> RectangularPatchResult) option" where
  "computeRectangularPatchReverse input =
     (let WM = WM input; LM = LM input; epsilonR = epsilonR input; hM = hM input
      in if WM \<le> Fin 0 \<or> LM \<le> Fin 0 \<or> epsilonR < Fin 1 \<or> hM \<le> Fin 0 then None
         else
           (let epsilonReff = effectiveEpsilon epsilonR WM hM;
                num = (epsilonReff + Fin 0.3) * (WM / hM + Fin 0.264);
                den = (epsilonReff - Fin 0.258) * (WM / hM + Fin 0.8);
                deltaL = Fin 0.824 * hM * (num / den);
                frHz = C / (Fin 2 * Math_sqrt epsilonReff * (LM + deltaL))
            in if \<not> isFinite frHz \<or> frHz \<le> Fin 0 then None
               else
                 (case computeRectangularPatch
                         \<lparr>epsilonR = epsilonR, hM = hM, frHz = frHz\<rparr> of
                    None \<Rightarrow> None
                  | Some forward \<Rightarrow> Some (frHz, forward))))"

definition computeCircularPatch :: "PatchInput \<Rightarrow> CircularPatchResult option" where
  "computeCircularPatch input =
     (let frHz = frHz input; epsilonR = epsilonR input; hM = hM input
      in if frHz \<le> Fin 0 \<or> epsilonR < Fin 1 \<or> hM \<le> Fin 0 then None
         else
           (let lambda0 = wavelength frHz;
                k0Val = k0 frHz;
                FVal = F frHz epsilonR;
                a = physicalRadius FVal hM epsilonR;
                a_e = effectiveRadius a hM epsilonR;
                integral = simpson (circ_integrand k0Val a_e) (Fin 0)
                             (Math_PI / Fin 2) 512;
                G_rad = (Math_pow (k0Val * a_e) 2 / Fin 480) * integral
            in if \<not> isFinite G_rad \<or> G_rad \<le> Fin 0 then
                 Some \<lparr>directivityD = NaN, directivityDBi = NaN, lambda0 = lambda0,
                   a = a, a_e = a_e\<rparr>
               else
                 (let D0 = Math_pow (k0Val * a_e) 2 / (Fin 120 * G_rad);
                      directivityDBi = Fin 10 * Math_log10 D0
                  in Some \<lparr>directivityD = D0, directivityDBi = directivityDBi,
                       lambda0 = lambda0, a = a, a_e = a_e\<rparr>)))"

text \<open>
  The \<^verbatim>\<open>for\<close> loop of the bisection from iteration \<open>i\<close> on, together with the statements
  after it, which the loop reaches when it has run 80 times without returning. The loop
  reads the three fields of the input of \<^verbatim>\<open>computeCircularPatchReverse\<close>, which encloses it.
\<close>

function bisection ::
  "CircularPatchInputReverse \<Rightarrow> nat \<Rightarrow> number \<Rightarrow> number \<Rightarrow>
     (number \<times> CircularPatchResult) option" where
  "bisection input i FLow FHigh =
     (let aM = aM input; epsilonR = epsilonR input; hM = hM input
      in if i < 80 then
           (let FMid = (FLow + FHigh) / Fin 2;
                aMid = physicalRadius FMid hM epsilonR
            in if \<bar>aMid - aM\<bar> < Fin (1 / 10 ^ 12) * aM then
                 (let frHz = Fin 87910000 / (FMid * Math_sqrt epsilonR)
                  in case computeCircularPatch
                            \<lparr>epsilonR = epsilonR, hM = hM, frHz = frHz\<rparr> of
                       None \<Rightarrow> None
                     | Some result \<Rightarrow> Some (frHz, result))
               else if aMid < aM then bisection input (i + 1) FMid FHigh
               else bisection input (i + 1) FLow FMid)
         else
           (let frHz = Fin 87910000 / (((FLow + FHigh) / Fin 2) * Math_sqrt epsilonR)
            in case computeCircularPatch
                      \<lparr>epsilonR = epsilonR, hM = hM, frHz = frHz\<rparr> of
                 None \<Rightarrow> None
               | Some result \<Rightarrow> Some (frHz, result)))"
  by pat_completeness auto
termination
  by (relation "measure (\<lambda>(input, i, FLow, FHigh). 80 - i)") auto

text \<open>
  The outer \<open>None\<close> is a bracket loop that never ends; \<open>Some None\<close> is the \<^verbatim>\<open>null\<close> of
  the source.
\<close>

definition computeCircularPatchReverse ::
  "CircularPatchInputReverse \<Rightarrow> (number \<times> CircularPatchResult) option option" where
  "computeCircularPatchReverse input =
     (let aM = aM input; epsilonR = epsilonR input; hM = hM input
      in if aM \<le> Fin 0 \<or> epsilonR < Fin 1 \<or> hM \<le> Fin 0 then Some None
         else
           (case expandFLow aM hM epsilonR (Fin (1 / 10 ^ 5)) of
              None \<Rightarrow> None
            | Some FLow \<Rightarrow>
                (case expandFHigh aM hM epsilonR (Fin 0.1) of
                   None \<Rightarrow> None
                 | Some FHigh \<Rightarrow>
                     (if physicalRadius FLow hM epsilonR > aM
                         \<or> physicalRadius FHigh hM epsilonR < aM
                      then Some None
                      else Some (bisection input 0 FLow FHigh)))))"

section \<open>Real-valued counterparts used in the proofs\<close>

text \<open>The weight that the loop of \<^verbatim>\<open>simpson\<close> gives to the interior point \<open>j\<close>.\<close>

definition simpson_weight :: "nat \<Rightarrow> real" where
  "simpson_weight j = (if j mod 2 = 0 then 2 else 4)"

text \<open>The value of \<^verbatim>\<open>effectiveEpsilon\<close> on finite arguments with \<open>h > 0\<close> and \<open>W > 0\<close>.\<close>

definition effectiveEpsilon_real :: "real \<Rightarrow> real \<Rightarrow> real \<Rightarrow> real" where
  "effectiveEpsilon_real e w h = (e + 1) / 2 + (e - 1) / 2 / sqrt (1 + 12 * h / w)"

text \<open>The circular quantities on finite, valid arguments.\<close>

definition F_real :: "real \<Rightarrow> real \<Rightarrow> real" where
  "F_real fr e = 87910000 / (fr * sqrt e)"

definition physicalRadius_real :: "real \<Rightarrow> real \<Rightarrow> real \<Rightarrow> real" where
  "physicalRadius_real f h e =
     f / sqrt (1 + 2 * h / (pi * e * f) * ln (pi * f / (2 * h) + 1.7726))"

definition effectiveRadius_real :: "real \<Rightarrow> real \<Rightarrow> real \<Rightarrow> real" where
  "effectiveRadius_real x h e =
     x * sqrt (1 + 2 * h / (pi * x * e) * ln (pi * x / (2 * h) + 1.7726))"

text \<open>
  The summation loop of \<^verbatim>\<open>besselJ\<close> on finite values.
\<close>

function besselJ_loop_real :: "int \<Rightarrow> real \<Rightarrow> nat \<Rightarrow> real \<Rightarrow> real \<Rightarrow> real" where
  "besselJ_loop_real n x2 k s t =
     (if k < 120 then
        (let s' = s + t;
             t' = t * ((- 1 * (x2 * x2)) / (real (k + 1) * real_of_int (n + int k + 1)))
         in if \<bar>t'\<bar> < 1 / 10 ^ 16 * \<bar>s'\<bar> then s'
            else besselJ_loop_real n x2 (k + 1) s' t')
      else s)"
  by pat_completeness auto
termination
  by (relation "measure (\<lambda>(n, x2, k, s, t). 120 - k)") auto

text \<open>
  The power series as the documentation of \<^verbatim>\<open>bessel.ts\<close> and the specification state
  it: the term of index \<open>k\<close> of \<open>J\<^sub>n(x)\<close> is \<open>(-1)^k / (k! (n+k)!) * (x/2)^(n+2k)\<close>, and the
  sum is truncated to at most 120 terms, stopping early once the next term is below
  \<open>1e-16\<close> times the running sum in magnitude.
\<close>

definition bessel_term :: "nat \<Rightarrow> real \<Rightarrow> nat \<Rightarrow> real" where
  "bessel_term n x k = (- 1) ^ k / (fact k * fact (n + k)) * (x / 2) ^ (n + 2 * k)"

function bessel_series :: "nat \<Rightarrow> real \<Rightarrow> nat \<Rightarrow> real \<Rightarrow> real" where
  "bessel_series n x k s =
     (if k < 120 then
        (let s' = s + bessel_term n x k
         in if \<bar>bessel_term n x (k + 1)\<bar> < 1 / 10 ^ 16 * \<bar>s'\<bar> then s'
            else bessel_series n x (k + 1) s')
      else s)"
  by pat_completeness auto
termination
  by (relation "measure (\<lambda>(n, x, k, s). 120 - k)") auto

text \<open>
  The values of the \<^verbatim>\<open>const\<close>s of \<^verbatim>\<open>computeRectangularPatch\<close> on an input, as the theorems
  name them.
\<close>

definition W_of :: "PatchInput \<Rightarrow> number" where
  "W_of input = rect_W (frHz input) (epsilonR input)"

definition epsilonReff_of :: "PatchInput \<Rightarrow> number" where
  "epsilonReff_of input = effectiveEpsilon (epsilonR input) (W_of input) (hM input)"

definition L_of :: "PatchInput \<Rightarrow> number" where
  "L_of input = rect_L (frHz input) (hM input) (W_of input) (epsilonReff_of input)"

definition L_eff_of :: "PatchInput \<Rightarrow> number" where
  "L_eff_of input = rect_L_eff (frHz input) (epsilonReff_of input)"

definition G1_of :: "PatchInput \<Rightarrow> number" where
  "G1_of input = rect_G1 (k0 (frHz input)) (W_of input)"

definition G12_of :: "PatchInput \<Rightarrow> number" where
  "G12_of input = rect_G12 (k0 (frHz input)) (W_of input) (L_of input)"

definition I1_of :: "PatchInput \<Rightarrow> number" where
  "I1_of input = rect_I1 (k0 (frHz input)) (W_of input) (L_eff_of input)"

definition RinAtEdge_of :: "PatchInput \<Rightarrow> number" where
  "RinAtEdge_of input = Fin 1 / (Fin 2 * (G1_of input + G12_of input))"

text \<open>Simpson's rule on a real function, as the loop of \<^verbatim>\<open>simpson\<close> computes it.\<close>

definition simpson_real :: "(real \<Rightarrow> real) \<Rightarrow> real \<Rightarrow> real \<Rightarrow> nat \<Rightarrow> real" where
  "simpson_real g lo hi n =
     (hi - lo) / real n / 3
     * (g lo + g hi
        + (\<Sum>j = 1..<n. simpson_weight j * g (lo + real j * ((hi - lo) / real n))))"

text \<open>The rectangular quantities on finite, valid arguments.\<close>

definition W_real :: "real \<Rightarrow> real \<Rightarrow> real" where
  "W_real fr e = 299792458 / (2 * fr) * sqrt (2 / (e + 1))"

definition L_eff_real :: "real \<Rightarrow> real \<Rightarrow> real" where
  "L_eff_real fr ee = 299792458 / (2 * fr * sqrt ee)"

definition deltaL_real :: "real \<Rightarrow> real \<Rightarrow> real \<Rightarrow> real" where
  "deltaL_real ee w h =
     0.824 * h * ((ee + 0.3) * (w / h + 0.264) / ((ee - 0.258) * (w / h + 0.8)))"

definition k0_real :: "real \<Rightarrow> real" where
  "k0_real fr = 2 * pi * fr / 299792458"

definition slot_factor :: "real \<Rightarrow> real \<Rightarrow> real" where
  "slot_factor kw theta =
     (if \<bar>cos theta\<bar> < 1 / 10 ^ 12 then kw / 2 * (kw / 2)
      else (sin (kw / 2 * cos theta) / cos theta)\<^sup>2)"

definition integrandG1_real :: "real \<Rightarrow> real \<Rightarrow> real" where
  "integrandG1_real kw theta = slot_factor kw theta * sin theta ^ 3"

definition integrandG12_real :: "real \<Rightarrow> real \<Rightarrow> real \<Rightarrow> real" where
  "integrandG12_real kw kl theta =
     slot_factor kw theta * bessel_series 0 (kl * sin theta) 0 0 * sin theta ^ 3"

text \<open>
  The value of \<open>F\<close> that the bisection of \<^verbatim>\<open>computeCircularPatchReverse\<close> settles on, from
  iteration \<open>i\<close> with the bracket \<open>[lo, hi]\<close>, on finite values: the first midpoint whose
  radius is within the relative tolerance \<open>1e-12\<close> of the target, or the midpoint of the
  last bracket when 80 iterations have found none.
\<close>

function bisect_mid :: "real \<Rightarrow> real \<Rightarrow> real \<Rightarrow> nat \<Rightarrow> real \<Rightarrow> real \<Rightarrow> real" where
  "bisect_mid am h e i lo hi =
     (if i < 80 then
        (let m = (lo + hi) / 2;
             r = physicalRadius_real m h e
         in if \<bar>r - am\<bar> < 1 / 10 ^ 12 * am then m
            else if r < am then bisect_mid am h e (i + 1) m hi
            else bisect_mid am h e (i + 1) lo m)
      else (lo + hi) / 2)"
  by pat_completeness auto
termination
  by (relation "measure (\<lambda>(am, h, e, i, lo, hi). 80 - i)") auto

section \<open>Arithmetic of finite numbers and of not-a-number\<close>

declare simpson_loop.simps [simp del] simpson2D_loop.simps [simp del]
  besselJ_loop.simps [simp del] factorial_loop.simps [simp del] bisection.simps [simp del]

lemma Fin_plus [simp]: "Fin x + Fin y = Fin (x + y)"
  by (simp add: plus_number_def)

lemma Fin_minus [simp]: "Fin x - Fin y = Fin (x - y)"
  by (simp add: minus_number_def)

lemma Fin_uminus [simp]: "- Fin x = Fin (- x)"
  by (simp add: uminus_number_def)

lemma Fin_times [simp]: "Fin x * Fin y = Fin (x * y)"
  by (simp add: times_number_def)

lemma Fin_divide [simp]: "y \<noteq> 0 \<Longrightarrow> Fin x / Fin y = Fin (x / y)"
  by (simp add: divide_number_def)

lemma Fin_abs [simp]: "\<bar>Fin x\<bar> = Fin \<bar>x\<bar>"
  by (simp add: abs_number_def)

lemma Fin_le [simp]: "Fin x \<le> Fin y \<longleftrightarrow> x \<le> y"
  by (simp add: less_eq_number_def)

lemma Fin_less [simp]: "Fin x < Fin y \<longleftrightarrow> x < y"
  by (simp add: less_number_def)

lemma NaN_arith [simp]:
  "NaN + u = NaN" "u + NaN = NaN" "NaN - u = NaN" "u - NaN = NaN"
  "NaN * u = NaN" "u * NaN = NaN" "NaN / u = NaN" "u / NaN = NaN"
  "\<bar>NaN\<bar> = NaN"
  by (cases u; simp add: plus_number_def minus_number_def times_number_def
        divide_number_def abs_number_def)+

lemma NaN_compare [simp]:
  "\<not> NaN \<le> u" "\<not> u \<le> NaN" "\<not> NaN < u" "\<not> u < NaN"
  by (cases u; simp add: less_eq_number_def less_number_def)+

lemma isFinite_iff: "isFinite u \<longleftrightarrow> (\<exists>x. u = Fin x)"
  by (cases u) simp_all

lemma isFinite_plus: "isFinite (u + v) \<longleftrightarrow> isFinite u \<and> isFinite v"
  by (cases u; cases v; simp add: plus_number_def)



lemmas number_ops = plus_number_def minus_number_def uminus_number_def times_number_def
  divide_number_def abs_number_def less_eq_number_def less_number_def inf_times_def

lemma positive_number_cases:
  assumes "Fin 0 < u"
  obtains x where "0 < x" "u = Fin x" | "u = PInf"
  using assms by (cases u) (simp_all add: number_ops)


section \<open>Simpson's rule on finite values\<close>

lemma simpson_weight_even: "simpson_weight (2 * k) = 2"
  by (simp add: simpson_weight_def)

lemma simpson_weight_odd: "simpson_weight (Suc (2 * k)) = 4"
  by (simp add: simpson_weight_def mod_Suc)

lemma simpson_loop_Fin:
  assumes "\<And>x. f (Fin x) = Fin (g x)"
  shows "simpson_loop f (Fin lo) (Fin h) n i (Fin s)
         = Fin (s + (\<Sum>j = i..<n. simpson_weight j * g (lo + real j * h)))"
proof (induction "n - i" arbitrary: i s)
  case 0
  then show ?case by (subst simpson_loop.simps) simp
next
  case (Suc d)
  then have lt: "i < n" and d: "d = n - (i + 1)" by auto
  have "simpson_loop f (Fin lo) (Fin h) n i (Fin s)
        = simpson_loop f (Fin lo) (Fin h) n (i + 1)
            (Fin (s + simpson_weight i * g (lo + real i * h)))"
    using lt by (subst simpson_loop.simps) (simp add: assms simpson_weight_def)
  also have "\<dots> = Fin (s + simpson_weight i * g (lo + real i * h)
        + (\<Sum>j = i + 1..<n. simpson_weight j * g (lo + real j * h)))"
    by (rule Suc.hyps(1) [OF d])
  also have "\<dots> = Fin (s + (\<Sum>j = i..<n. simpson_weight j * g (lo + real j * h)))"
    using lt by (simp add: sum.atLeast_Suc_lessThan)
  finally show ?case .
qed

lemma simpson_Fin:
  assumes f: "\<And>x. f (Fin x) = Fin (g x)" and n: "even n" "0 < n"
  shows "simpson f (Fin lo) (Fin hi) n
         = Fin ((hi - lo) / real n / 3
                * (g lo + g hi
                   + (\<Sum>j = 1..<n. simpson_weight j * g (lo + real j * ((hi - lo) / real n)))))"
proof -
  have "n mod 2 = 0" using n by presburger
  then show ?thesis
    using n by (simp add: simpson_def Let_def f simpson_loop_Fin [where f = f and g = g, OF f])
qed

lemma simpson_sum_step:
  fixes t :: "nat \<Rightarrow> real"
  shows "(\<Sum>j = 1..<2 * Suc (Suc m). t j)
         = (\<Sum>j = 1..<2 * Suc m. t j) + t (2 * Suc m) + t (Suc (2 * Suc m))"
proof -
  have e: "2 * Suc (Suc m) = Suc (Suc (2 * Suc m))" by simp
  have "(\<Sum>j = 1..<2 * Suc (Suc m). t j)
        = (\<Sum>j = 1..<Suc (2 * Suc m). t j) + t (Suc (2 * Suc m))"
    unfolding e by (rule sum.atLeastLessThan_Suc) simp
  also have "(\<Sum>j = 1..<Suc (2 * Suc m). t j) = (\<Sum>j = 1..<2 * Suc m. t j) + t (2 * Suc m)"
    by (rule sum.atLeastLessThan_Suc) simp
  finally show ?thesis .
qed

lemma simpson_sum_base:
  fixes t :: "nat \<Rightarrow> real"
  shows "(\<Sum>j = 1..<2 * Suc 0. t j) = t 1"
proof -
  have "{1..<2 * Suc 0} = {1::nat}" by auto
  then show ?thesis by simp
qed

lemma weight_sum: "(\<Sum>j = 1..<2 * Suc m. simpson_weight j) = 6 * real m + 4"
proof (induction m)
  case 0
  show ?case unfolding simpson_sum_base using simpson_weight_odd [of 0] by simp
next
  case (Suc m)
  show ?case
    unfolding simpson_sum_step Suc.IH simpson_weight_even simpson_weight_odd by simp
qed

lemma weight_square_sum:
  "(\<Sum>j = 1..<2 * Suc m. simpson_weight j * (real j)\<^sup>2)
   = 4 * (real (Suc m))\<^sup>2 * (2 * real (Suc m) - 1)"
proof (induction m)
  case 0
  show ?case unfolding simpson_sum_base using simpson_weight_odd [of 0] by simp
next
  case (Suc m)
  show ?case
    unfolding simpson_sum_step Suc.IH simpson_weight_even simpson_weight_odd
    by (simp add: power2_eq_square algebra_simps)
qed

text \<open>
  Claim C9. With exact arithmetic, Simpson's rule on \<open>[0, 1]\<close> with an even number
  \<open>n \<ge> 2\<close> of subintervals integrates the constant 1 to exactly 1 and the square
  \<open>x \<mapsto> x * x\<close> to exactly 1/3.
\<close>

theorem simpson_exact:
  assumes "even n" and "2 \<le> n"
  shows "simpson (\<lambda>x. Fin 1) (Fin 0) (Fin 1) n = Fin 1
       \<and> simpson (\<lambda>x. x * x) (Fin 0) (Fin 1) n = Fin (1 / 3)"
proof -
  from assms obtain k where "n = 2 * k" by (auto elim: evenE)
  with assms(2) obtain m where n: "n = 2 * Suc m" by (cases k) auto
  have pos: "0 < n" using assms by simp
  have "simpson (\<lambda>x. Fin 1) (Fin 0) (Fin 1) n
        = Fin (1 / real n / 3 * (2 + (\<Sum>j = 1..<n. simpson_weight j)))"
    using simpson_Fin [of "\<lambda>x. Fin 1" "\<lambda>x. 1" n 0 1] assms(1) pos by simp
  also have "\<dots> = Fin 1"
    unfolding n weight_sum by (simp add: field_simps)
  finally have one: "simpson (\<lambda>x. Fin 1) (Fin 0) (Fin 1) n = Fin 1" .
  have "simpson (\<lambda>x. x * x) (Fin 0) (Fin 1) n
        = Fin (1 / real n / 3
               * (1 + (\<Sum>j = 1..<n. simpson_weight j * (real j * (1 / real n) * (real j * (1 / real n))))))"
    using simpson_Fin [of "\<lambda>x. x * x" "\<lambda>x. x * x" n 0 1] assms(1) pos by simp
  also have "(\<Sum>j = 1..<n. simpson_weight j * (real j * (1 / real n) * (real j * (1 / real n))))
             = (\<Sum>j = 1..<n. simpson_weight j * (real j)\<^sup>2) / (real n)\<^sup>2"
    by (simp add: sum_divide_distrib power2_eq_square)
  also have "Fin (1 / real n / 3 * (1 + (\<Sum>j = 1..<n. simpson_weight j * (real j)\<^sup>2) / (real n)\<^sup>2))
             = Fin (1 / 3)"
  proof -
    define r where "r = real (Suc m)"
    have r: "r \<noteq> 0" by (simp add: r_def)
    have rn: "real n = 2 * r" by (simp add: n r_def)
    have "4 * r\<^sup>2 * (2 * r - 1) / (2 * r)\<^sup>2 = 2 * r - 1"
      using r by (simp add: power2_eq_square)
    then have "1 / (2 * r) / 3 * (1 + 4 * r\<^sup>2 * (2 * r - 1) / (2 * r)\<^sup>2) = 1 / 3"
      using r by simp
    then show ?thesis
      unfolding n weight_square_sum using rn by (simp add: n r_def)
  qed
  finally have sq: "simpson (\<lambda>x. x * x) (Fin 0) (Fin 1) n = Fin (1 / 3)" .
  from one sq show ?thesis by simp
qed

theorem simpson_exact_witness:
  "even (2::nat) \<and> (2::nat) \<le> 2
   \<and> simpson (\<lambda>x. Fin 1) (Fin 0) (Fin 1) 2 = Fin 1
   \<and> simpson (\<lambda>x. x * x) (Fin 0) (Fin 1) 2 = Fin (1 / 3)"
  using simpson_exact [of 2] by simp

section \<open>The effective permittivity\<close>

lemma effectiveEpsilon_Fin:
  assumes "0 < h" "0 < w"
  shows "effectiveEpsilon (Fin e) (Fin w) (Fin h) = Fin (effectiveEpsilon_real e w h)"
proof -
  have "0 < 1 + 12 * h / w" using assms by (simp add: add_pos_pos)
  then have "sqrt (1 + 12 * h / w) \<noteq> 0" "\<not> 1 + 12 * h / w < 0" by auto
  then show ?thesis
    using assms by (simp add: effectiveEpsilon_def effectiveEpsilon_real_def)
qed

lemma divide_ge1_le_self:
  fixes x :: real
  assumes "0 \<le> x" "1 \<le> s"
  shows "x / s \<le> x"
  using divide_left_mono [of 1 s x] assms by simp

lemma divide_gt1_less_self:
  fixes x :: real
  assumes "0 < x" "1 < s"
  shows "x / s < x"
  using divide_strict_left_mono [of 1 s x] assms by simp

lemma effectiveEpsilon_real_bounds:
  assumes "1 \<le> e" "0 < h" "0 < w"
  shows "(e + 1) / 2 \<le> effectiveEpsilon_real e w h"
    and "effectiveEpsilon_real e w h \<le> e"
    and "1 < e \<Longrightarrow> effectiveEpsilon_real e w h < e"
proof -
  define s where "s = sqrt (1 + 12 * h / w)"
  have "1 < 1 + 12 * h / w" using assms by simp
  then have s: "1 < s" unfolding s_def by (metis real_sqrt_gt_1_iff)
  have eq: "effectiveEpsilon_real e w h = (e + 1) / 2 + (e - 1) / 2 / s"
    by (simp add: effectiveEpsilon_real_def s_def)
  have "0 \<le> (e - 1) / 2 / s" using assms s by simp
  then show "(e + 1) / 2 \<le> effectiveEpsilon_real e w h" unfolding eq by simp
  have "(e - 1) / 2 / s \<le> (e - 1) / 2"
    using assms s by (intro divide_ge1_le_self) simp_all
  then show "effectiveEpsilon_real e w h \<le> e" unfolding eq by (simp add: field_simps)
  assume "1 < e"
  then have "(e - 1) / 2 / s < (e - 1) / 2"
    using s by (intro divide_gt1_less_self) simp_all
  then show "effectiveEpsilon_real e w h < e" unfolding eq by (simp add: field_simps)
qed

lemma effectiveEpsilon_infinite_height:
  assumes "0 < w"
  shows "effectiveEpsilon (Fin e) (Fin w) PInf = Fin ((e + 1) / 2)"
  using assms by (simp add: effectiveEpsilon_def number_ops)

text \<open>
  Claim C5, for a finite permittivity and a finite width: with \<open>epsilonR \<ge> 1\<close>, \<open>W > 0\<close>
  and \<open>h > 0\<close> (a height that may be infinite) the effective permittivity is at least 1
  and at most \<open>epsilonR * (1 + 1e-15)\<close>. In the exact arithmetic of this model the value
  never exceeds \<open>epsilonR\<close>, as the lemma on the real formula above shows; the statement
  keeps a relative margin of \<open>1e-15\<close> so that it does not rest on that exactness. Every
  operation of the formula is monotone: the first summand \<open>(epsilonR + 1) / 2\<close> is at
  least 1 and the second is not negative however they are rounded, and the roundings of
  \<open>epsilonR + 1\<close>, \<open>epsilonR - 1\<close> and of the final sum to 53 bits move the result by
  less than the margin. That the value is strictly below \<open>epsilonR\<close> is not part of the
  statement: when \<open>h / W\<close> is small the difference is lost in the last place.
\<close>

theorem effectiveEpsilon_bounds:
  assumes "1 \<le> e" "0 < w" "Fin 0 < h"
  shows "Fin 1 \<le> effectiveEpsilon (Fin e) (Fin w) h
       \<and> effectiveEpsilon (Fin e) (Fin w) h \<le> Fin (e * (1 + 1 / 10 ^ 15))"
proof -
  have m: "e \<le> e * (1 + 1 / 10 ^ 15)" using assms(1) by (simp add: algebra_simps)
  from assms(3) show ?thesis
  proof (cases h rule: positive_number_cases)
    case (1 x)
    then show ?thesis
      using effectiveEpsilon_real_bounds [OF assms(1) 1(1) assms(2)] assms(1,2) m
      by (simp add: effectiveEpsilon_Fin)
  next
    case 2
    then show ?thesis
      using assms(1,2) m by (simp add: effectiveEpsilon_infinite_height)
  qed
qed

theorem effectiveEpsilon_bounds_witness:
  "(1::real) \<le> 2 \<and> (0::real) < 1 \<and> Fin 0 < Fin 1 \<and> Fin 0 < PInf
   \<and> Fin 1 \<le> effectiveEpsilon (Fin 2) (Fin 1) (Fin 1)
   \<and> effectiveEpsilon (Fin 2) (Fin 1) (Fin 1) \<le> Fin (2 * (1 + 1 / 10 ^ 15))
   \<and> Fin 1 \<le> effectiveEpsilon (Fin 2) (Fin 1) PInf
   \<and> effectiveEpsilon (Fin 2) (Fin 1) PInf \<le> Fin (2 * (1 + 1 / 10 ^ 15))"
proof -
  have pos: "(1::real) \<le> 2" "(0::real) < 1" "Fin 0 < Fin 1" "Fin 0 < PInf"
    by (simp_all add: number_ops)
  from effectiveEpsilon_bounds [OF pos(1,2,3)] effectiveEpsilon_bounds [OF pos(1,2,4)] pos
  show ?thesis by simp
qed

text \<open>
  The bounds do not extend to every argument that passes the comparisons. An infinite
  permittivity gives an infinite result, not strictly below it; an infinite width gives
  \<open>epsilonR\<close> itself; and with an infinite height and an infinite width the quotient
  \<open>12 * h / W\<close> is not-a-number, and so is the result.
\<close>

theorem effectiveEpsilon_infinite_counterexample:
  "Fin 1 \<le> PInf \<and> Fin 1 < PInf \<and> Fin 0 < PInf \<and> Fin 1 \<le> Fin 4.4 \<and> Fin 1 < Fin 4.4
   \<and> Fin 0 < Fin 1 \<and> Fin 0 < Fin 0.0016
   \<and> effectiveEpsilon PInf (Fin 1) (Fin 1) = PInf
   \<and> \<not> effectiveEpsilon PInf (Fin 1) (Fin 1) < PInf
   \<and> effectiveEpsilon (Fin 4.4) PInf (Fin 0.0016) = Fin 4.4
   \<and> \<not> effectiveEpsilon (Fin 4.4) PInf (Fin 0.0016) < Fin 4.4
   \<and> effectiveEpsilon (Fin 4.4) PInf PInf = NaN
   \<and> \<not> Fin 1 \<le> effectiveEpsilon (Fin 4.4) PInf PInf
   \<and> \<not> effectiveEpsilon (Fin 4.4) PInf PInf \<le> Fin 4.4"
  by (simp add: effectiveEpsilon_def number_ops)

section \<open>The radii of the circular patch\<close>

lemma F_Fin:
  assumes "0 < fr" "1 \<le> e"
  shows "F (Fin fr) (Fin e) = Fin (F_real fr e)" and "0 < F_real fr e"
proof -
  have "0 < sqrt e" using assms by simp
  then have pos: "0 < fr * sqrt e" using assms by simp
  then show "F (Fin fr) (Fin e) = Fin (F_real fr e)"
    using assms by (simp add: F_def F_real_def)
  show "0 < F_real fr e" using pos by (simp add: F_real_def)
qed

lemma fringe_factor_gt_1:
  assumes "0 < x" "0 < h" "0 < c"
  shows "0 < pi * x / (2 * h) + 1.7726"
    and "1 < 1 + 2 * h / c * ln (pi * x / (2 * h) + 1.7726)"
proof -
  have "0 < pi * x / (2 * h)" using assms by simp
  then have arg: "1 < pi * x / (2 * h) + 1.7726" by simp
  then show "0 < pi * x / (2 * h) + 1.7726" by simp
  from arg have "0 < ln (pi * x / (2 * h) + 1.7726)" by simp
  moreover have "0 < 2 * h / c" using assms by simp
  ultimately have "0 < 2 * h / c * ln (pi * x / (2 * h) + 1.7726)"
    by (rule mult_pos_pos [rotated])
  then show "1 < 1 + 2 * h / c * ln (pi * x / (2 * h) + 1.7726)" by simp
qed

lemma physicalRadius_Fin:
  assumes "0 < f" "0 < h" "1 \<le> e"
  shows "physicalRadius (Fin f) (Fin h) (Fin e) = Fin (physicalRadius_real f h e)"
    and "0 < physicalRadius_real f h e"
    and "physicalRadius_real f h e < f"
proof -
  define la where "la = pi * f / (2 * h) + 1.7726"
  define d where "d = 1 + 2 * h / (pi * e * f) * ln la"
  have c: "0 < pi * e * f" using assms by simp
  have la: "0 < la" unfolding la_def using assms c by (intro fringe_factor_gt_1) simp_all
  have d: "1 < d" unfolding d_def la_def using assms c by (intro fringe_factor_gt_1) simp_all
  then have sd: "1 < sqrt d" by (metis real_sqrt_gt_1_iff)
  have eq: "physicalRadius_real f h e = f / sqrt d"
    by (simp add: physicalRadius_real_def d_def la_def)
  have 1: "(Math_PI * Fin f) / (Fin 2 * Fin h) + Fin 1.7726 = Fin la"
    using assms by (simp add: la_def Math_PI_def)
  have 2: "Math_log (Fin la) = Fin (ln la)" using la by simp
  have 3: "Fin 1 + (Fin 2 * Fin h) / (Math_PI * Fin e * Fin f) * Fin (ln la) = Fin d"
    using assms by (simp add: d_def Math_PI_def)
  have 4: "Math_sqrt (Fin d) = Fin (sqrt d)" using d by simp
  have 5: "Fin f / Fin (sqrt d) = Fin (f / sqrt d)" using sd by simp
  show "physicalRadius (Fin f) (Fin h) (Fin e) = Fin (physicalRadius_real f h e)"
    by (simp only: physicalRadius_def Let_def 1 2 3 4 5 eq)
  show "0 < physicalRadius_real f h e" unfolding eq using assms sd by simp
  show "physicalRadius_real f h e < f" unfolding eq
    using assms sd by (intro divide_gt1_less_self) simp_all
qed

lemma effectiveRadius_Fin:
  assumes "0 < x" "0 < h" "1 \<le> e"
  shows "effectiveRadius (Fin x) (Fin h) (Fin e) = Fin (effectiveRadius_real x h e)"
    and "x < effectiveRadius_real x h e"
proof -
  define la where "la = pi * x / (2 * h) + 1.7726"
  define d where "d = 1 + 2 * h / (pi * x * e) * ln la"
  have c: "0 < pi * x * e" using assms by simp
  have la: "0 < la" unfolding la_def using assms c by (intro fringe_factor_gt_1) simp_all
  have d: "1 < d" unfolding d_def la_def using assms c by (intro fringe_factor_gt_1) simp_all
  then have sd: "1 < sqrt d" by (metis real_sqrt_gt_1_iff)
  have eq: "effectiveRadius_real x h e = x * sqrt d"
    by (simp add: effectiveRadius_real_def d_def la_def)
  have 1: "(Math_PI * Fin x) / (Fin 2 * Fin h) + Fin 1.7726 = Fin la"
    using assms by (simp add: la_def Math_PI_def)
  have 2: "Math_log (Fin la) = Fin (ln la)" using la by simp
  have 3: "Fin 1 + (Fin 2 * Fin h) / (Math_PI * Fin x * Fin e) * Fin (ln la) = Fin d"
    using assms by (simp add: d_def Math_PI_def)
  have 4: "Math_sqrt (Fin d) = Fin (sqrt d)" using d by simp
  have 5: "Fin x * Fin (sqrt d) = Fin (x * sqrt d)" by simp
  show "effectiveRadius (Fin x) (Fin h) (Fin e) = Fin (effectiveRadius_real x h e)"
    by (simp only: effectiveRadius_def Let_def 1 2 3 4 5 eq)
  show "x < effectiveRadius_real x h e" unfolding eq using assms sd by simp
qed

lemma computeCircularPatch_Some:
  assumes "\<not> (frHz input \<le> Fin 0 \<or> epsilonR input < Fin 1 \<or> hM input \<le> Fin 0)"
  shows "\<exists>r. computeCircularPatch input = Some r
           \<and> a r = physicalRadius (F (frHz input) (epsilonR input)) (hM input) (epsilonR input)
           \<and> a_e r = effectiveRadius (a r) (hM input) (epsilonR input)
           \<and> lambda0 r = wavelength (frHz input)"
  using assms by (simp add: computeCircularPatch_def Let_def)

lemma computeCircularPatch_forward_radii:
  assumes "0 < fr" "1 \<le> e" "0 < h"
  shows "\<exists>r. computeCircularPatch \<lparr>epsilonR = Fin e, hM = Fin h, frHz = Fin fr\<rparr> = Some r
           \<and> a_e r \<ge> a r"
proof -
  note Fv = F_Fin [OF assms(1,2)]
  note pr = physicalRadius_Fin [OF Fv(2) assms(3,2)]
  note er = effectiveRadius_Fin [OF pr(2) assms(3,2)]
  have "\<not> (Fin fr \<le> Fin 0 \<or> Fin e < Fin 1 \<or> Fin h \<le> Fin 0)"
    using assms by simp
  from computeCircularPatch_Some [of "\<lparr>epsilonR = Fin e, hM = Fin h, frHz = Fin fr\<rparr>"] this
  obtain r where r: "computeCircularPatch \<lparr>epsilonR = Fin e, hM = Fin h, frHz = Fin fr\<rparr> = Some r"
    "a r = physicalRadius (F (Fin fr) (Fin e)) (Fin h) (Fin e)"
    "a_e r = effectiveRadius (a r) (Fin h) (Fin e)"
    by auto
  have "a r \<le> a_e r"
    unfolding r(3) unfolding r(2) Fv(1) pr(1) er(1) using er(2) by simp
  with r(1) show ?thesis by blast
qed

section \<open>Not-a-number at the guard of the circular solver\<close>

lemma NaN_special [simp]:
  "Math_pow NaN 2 = NaN" "Math_sqrt NaN = NaN" "Math_log NaN = NaN" "\<not> isFinite NaN"
  by (simp_all add: numeral_2_eq_2)

text \<open>
  Claim C10. The guard \<^verbatim>\<open>frHz <= 0 || epsilonR < 1 || hM <= 0\<close> of \<^verbatim>\<open>computeCircularPatch\<close>
  does not reject a frequency that is not-a-number (with \<open>epsilonR = 4.4\<close> and
  \<open>hM = 1.6e-3\<close>): the solver returns a record whose radii, wavelength and directivities
  are all not-a-number. A permittivity that is not-a-number passes the guard in the same
  way, and a record is returned.
\<close>

theorem computeCircularPatch_NaN_bypasses_guard:
  "\<not> (NaN \<le> Fin 0 \<or> Fin 4.4 < Fin 1 \<or> Fin 0.0016 \<le> Fin 0)
   \<and> computeCircularPatch \<lparr>epsilonR = Fin 4.4, hM = Fin 0.0016, frHz = NaN\<rparr>
       = Some \<lparr>directivityD = NaN, directivityDBi = NaN, lambda0 = NaN, a = NaN, a_e = NaN\<rparr>
   \<and> \<not> (Fin 2400000000 \<le> Fin 0 \<or> NaN < Fin 1 \<or> Fin 0.0016 \<le> Fin 0)
   \<and> computeCircularPatch \<lparr>epsilonR = NaN, hM = Fin 0.0016, frHz = Fin 2400000000\<rparr>
       = Some \<lparr>directivityD = NaN, directivityDBi = NaN,
            lambda0 = Fin (299792458 / 2400000000), a = NaN, a_e = NaN\<rparr>"
proof -
  have 1: "computeCircularPatch \<lparr>epsilonR = Fin 4.4, hM = Fin 0.0016, frHz = NaN\<rparr>
       = Some \<lparr>directivityD = NaN, directivityDBi = NaN, lambda0 = NaN, a = NaN, a_e = NaN\<rparr>"
    by (simp add: computeCircularPatch_def Let_def wavelength_def k0_def F_def
          physicalRadius_def effectiveRadius_def)
  have 2: "computeCircularPatch \<lparr>epsilonR = NaN, hM = Fin 0.0016, frHz = Fin 2400000000\<rparr>
       = Some \<lparr>directivityD = NaN, directivityDBi = NaN,
            lambda0 = Fin (299792458 / 2400000000), a = NaN, a_e = NaN\<rparr>"
    by (simp add: computeCircularPatch_def Let_def wavelength_def k0_def F_def C_def
          physicalRadius_def effectiveRadius_def Math_PI_def)
  from 1 2 show ?thesis by simp
qed

theorem computeCircularPatch_NaN_bypasses_guard_witness:
  "\<exists>r. computeCircularPatch \<lparr>epsilonR = Fin 4.4, hM = Fin 0.0016, frHz = NaN\<rparr> = Some r
     \<and> a r = NaN \<and> a_e r = NaN \<and> lambda0 r = NaN
     \<and> directivityD r = NaN \<and> directivityDBi r = NaN"
  using computeCircularPatch_NaN_bypasses_guard by simp

section \<open>The Bessel series\<close>

declare besselJ_loop_real.simps [simp del] bessel_series.simps [simp del]

lemma factorial_loop_Fin:
  assumes "1 \<le> i" "i \<le> k + 1"
  shows "factorial_loop k i (Fin (fact (nat (i - 1)))) = Fin (fact (nat k))"
  using assms
proof (induction "nat (k + 1 - i)" arbitrary: i)
  case 0
  then have "i = k + 1" by simp
  then show ?case by (subst factorial_loop.simps) simp
next
  case (Suc d)
  then have le: "i \<le> k" and d: "d = nat (k + 1 - (i + 1))" by auto
  have "fact (nat (i - 1)) * real_of_int i = fact (nat (i + 1 - 1))"
  proof -
    have "nat i = Suc (nat (i - 1))" using Suc.prems by simp
    then have "fact (nat i) = real_of_int i * fact (nat (i - 1))"
      using Suc.prems by (simp add: fact_Suc [of "nat (i - 1)"] del: fact_Suc)
    then show ?thesis by simp
  qed
  then have "factorial_loop k i (Fin (fact (nat (i - 1))))
             = factorial_loop k (i + 1) (Fin (fact (nat (i + 1 - 1))))"
    using le by (subst factorial_loop.simps) simp
  also have "\<dots> = Fin (fact (nat k))"
    using Suc.prems le by (intro Suc.hyps(1) [OF d]) simp_all
  finally show ?case .
qed

lemma factorial_Fin: "0 \<le> k \<Longrightarrow> factorial k = Fin (fact (nat k))"
  using factorial_loop_Fin [of 2 k] by (auto simp: factorial_def)

lemma besselJ_loop_Fin:
  assumes "0 \<le> n"
  shows "besselJ_loop n (Fin x2) k (Fin s) (Fin t) = Fin (besselJ_loop_real n x2 k s t)"
proof (induction "120 - k" arbitrary: k s t)
  case 0
  then show ?case
    by (subst besselJ_loop.simps, subst besselJ_loop_real.simps) simp
next
  case (Suc d)
  then have lt: "k < 120" and d: "d = 120 - (k + 1)" by auto
  have nz: "real (k + 1) * real_of_int (n + int k + 1) \<noteq> 0"
    using assms by simp
  show ?case
    apply (subst besselJ_loop.simps, subst besselJ_loop_real.simps)
    using lt nz Suc.hyps(1) [OF d] by (simp add: Let_def del: of_nat_Suc of_nat_add)
qed


lemma Math_pow_Fin [simp]: "Math_pow (Fin y) k = Fin (y ^ k)"
  by (cases k) simp_all

lemma besselJ_Fin:
  assumes "0 \<le> n"
  shows "besselJ n (Fin x)
         = Fin (besselJ_loop_real n (x / 2) 0 0
                  (if n = 0 then 1 else (x / 2) ^ nat n / (fact (nat n) * fact (nat n))))"
proof -
  have nz: "fact (nat n) * fact (nat n) \<noteq> (0::real)" by simp
  show ?thesis
    using assms nz
    by (simp add: besselJ_def Let_def factorial_Fin besselJ_loop_Fin del: mult_eq_0_iff)
qed

lemma bessel_term_Suc:
  "bessel_term n x (k + 1)
   = bessel_term n x k * ((- 1 * (x / 2 * (x / 2))) / (real (k + 1) * real_of_int (int n + int k + 1)))"
proof -
  have "real_of_int (int n + int k + 1) = real (Suc (n + k))" by simp
  then show ?thesis
    unfolding bessel_term_def by (simp add: field_simps)
qed

lemma besselJ_loop_real_series:
  fixes c :: real
  assumes "0 < c"
  shows "besselJ_loop_real (int n) (x / 2) k (s / c) (bessel_term n x k / c)
         = bessel_series n x k s / c"
proof (induction "120 - k" arbitrary: k s)
  case 0
  then show ?case
    by (subst besselJ_loop_real.simps, subst bessel_series.simps) simp
next
  case (Suc d)
  then have lt: "k < 120" and d: "d = 120 - (k + 1)" by auto
  define s' where "s' = s + bessel_term n x k"
  define t' where "t' = bessel_term n x (k + 1)"
  have t: "bessel_term n x k / c
             * ((- 1 * (x / 2 * (x / 2))) / (real (k + 1) * real_of_int (int n + int k + 1)))
           = t' / c"
    unfolding t'_def bessel_term_Suc by simp
  have s: "s / c + bessel_term n x k / c = s' / c"
    by (simp add: s'_def add_divide_distrib)
  have cmp: "\<bar>t' / c\<bar> < 1 / 10 ^ 16 * \<bar>s' / c\<bar> \<longleftrightarrow> \<bar>t'\<bar> < 1 / 10 ^ 16 * \<bar>s'\<bar>"
    using assms by (simp add: field_simps)
  have "besselJ_loop_real (int n) (x / 2) k (s / c) (bessel_term n x k / c)
        = (if \<bar>t'\<bar> < 1 / 10 ^ 16 * \<bar>s'\<bar> then s' / c
           else besselJ_loop_real (int n) (x / 2) (k + 1) (s' / c) (t' / c))"
    using lt by (subst besselJ_loop_real.simps) (simp only: Let_def t s cmp if_True)
  also have "\<dots> = (if \<bar>t'\<bar> < 1 / 10 ^ 16 * \<bar>s'\<bar> then s' / c
           else bessel_series n x (k + 1) s' / c)"
    unfolding t'_def using Suc.hyps(1) [OF d] by simp
  also have "\<dots> = bessel_series n x k s / c"
    using lt by (subst (2) bessel_series.simps) (simp add: Let_def s'_def t'_def)
  finally show ?case .
qed

text \<open>
  On every order \<open>n \<ge> 0\<close> and finite \<open>x\<close> the code returns the truncated power series
  divided by \<open>n!\<close>: its first term is \<open>(x/2)^n / (n! n!)\<close> where the series has
  \<open>(x/2)^n / (0! n!)\<close>, and the ratio of consecutive terms is that of the series. The two
  agree for the orders 0 and 1 only.
\<close>

lemma besselJ_is_series_over_factorial:
  "besselJ (int n) (Fin x) = Fin (bessel_series n x 0 0 / fact n)"
proof -
  have t0: "(if int n = 0 then 1
             else (x / 2) ^ nat (int n) / (fact (nat (int n)) * fact (nat (int n))))
            = bessel_term n x 0 / fact n"
    by (simp add: bessel_term_def)
  have "besselJ (int n) (Fin x)
        = Fin (besselJ_loop_real (int n) (x / 2) 0 (0 / fact n) (bessel_term n x 0 / fact n))"
    using besselJ_Fin [of "int n" x] unfolding t0 by simp
  also have "\<dots> = Fin (bessel_series n x 0 0 / fact n)"
    by (subst besselJ_loop_real_series) simp_all
  finally show ?thesis .
qed

lemma alternating_step:
  fixes s t r lo :: real
  assumes "0 \<le> r" "r \<le> 1" "lo \<le> s" "lo \<le> s + t"
  shows "lo \<le> s + t + t * (- r)"
proof (cases "0 \<le> t")
  case True
  then have "t * r \<le> t" using assms(2) by (simp add: mult_left_le)
  then show ?thesis using assms(3) by simp
next
  case False
  then have "0 \<le> t * (- r)" using assms(1) by (simp add: mult_nonpos_nonneg)
  then show ?thesis using assms(4) by linarith
qed

lemma bessel_series_lower:
  assumes ratio: "\<And>j. k \<le> j \<Longrightarrow> x / 2 * (x / 2) \<le> real (j + 1) * real (n + j + 1)"
    and "lo \<le> s" "lo \<le> s + bessel_term n x k"
  shows "lo \<le> bessel_series n x k s"
  using assms
proof (induction "120 - k" arbitrary: k s)
  case 0
  then show ?case by (subst bessel_series.simps) simp
next
  case (Suc d)
  then have lt: "k < 120" and d: "d = 120 - (k + 1)" by auto
  define r where "r = x / 2 * (x / 2) / (real (k + 1) * real (n + k + 1))"
  have pos: "0 < real (k + 1) * real (n + k + 1)" by simp
  have r0: "0 \<le> r" unfolding r_def by (intro divide_nonneg_pos pos) simp
  have r1: "r \<le> 1" unfolding r_def using Suc.prems(1) [of k] pos
    by (simp only: divide_le_eq_1_pos)
  have next_term: "bessel_term n x (k + 1) = bessel_term n x k * (- r)"
    unfolding bessel_term_Suc r_def by simp
  have rec: "lo \<le> bessel_series n x (k + 1) (s + bessel_term n x k)"
  proof (rule Suc.hyps(1) [OF d])
    show "x / 2 * (x / 2) \<le> real (j + 1) * real (n + j + 1)" if "k + 1 \<le> j" for j
      using that by (intro Suc.prems(1)) simp
    show "lo \<le> s + bessel_term n x k" by (rule Suc.prems(3))
    show "lo \<le> s + bessel_term n x k + bessel_term n x (k + 1)"
      unfolding next_term by (rule alternating_step [OF r0 r1 Suc.prems(2,3)])
  qed
  show ?case
    using lt rec Suc.prems(3) by (subst bessel_series.simps) (simp add: Let_def)
qed

lemma bessel_series_first:
  "bessel_series n x 0 0
   = (if \<bar>bessel_term n x 1\<bar> < 1 / 10 ^ 16 * \<bar>bessel_term n x 0\<bar> then bessel_term n x 0
      else bessel_series n x 1 (bessel_term n x 0))"
  by (subst bessel_series.simps) (simp add: Let_def)

text \<open>
  Claim C4 fails on the code at the order 2, which the circular solver uses: at \<open>x = 2\<close>
  \<^verbatim>\<open>besselJ\<close> returns half of the truncated power series, and the series is not zero there.
\<close>

theorem besselJ_order2_half_of_series:
  "besselJ 2 (Fin 2) = Fin (bessel_series 2 2 0 0 / 2)
   \<and> 1 / 3 \<le> bessel_series 2 2 0 0
   \<and> besselJ 2 (Fin 2) \<noteq> Fin (bessel_series 2 2 0 0)"
proof -
  have code: "besselJ 2 (Fin 2) = Fin (bessel_series 2 2 0 0 / 2)"
    using besselJ_is_series_over_factorial [of 2 2] by (simp add: fact_2 del: fact_numeral)
  have t0: "bessel_term 2 2 0 = 1 / 2" by (simp add: bessel_term_def)
  have t1: "bessel_term 2 2 1 = - (1 / 6)"
    by (simp add: bessel_term_def fact_numeral)
  have "1 / 3 \<le> bessel_series 2 2 1 (1 / 2)"
  proof (rule bessel_series_lower)
    show "2 / 2 * (2 / 2) \<le> real (j + 1) * real (2 + j + 1)" for j :: nat
    proof -
      have "1 \<le> real (j + 1)" "1 \<le> real (2 + j + 1)" by simp_all
      then have "1 * 1 \<le> real (j + 1) * real (2 + j + 1)"
        by (intro mult_mono) simp_all
      then show ?thesis by simp
    qed
    show "(1::real) / 3 \<le> 1 / 2" by simp
    show "1 / 3 \<le> 1 / 2 + bessel_term 2 2 1" unfolding t1 by simp
  qed
  then have low: "1 / 3 \<le> bessel_series 2 2 0 0"
    unfolding bessel_series_first [of 2 2] t0 t1 by simp
  from code low show ?thesis by simp
qed

section \<open>The results of the rectangular solver\<close>

lemma computeRectangularPatch_unfold:
  "computeRectangularPatch input =
     (if frHz input \<le> Fin 0 \<or> epsilonR input < Fin 1 \<or> hM input \<le> Fin 0 then None
      else if \<not> isFinite (G1_of input) \<or> \<not> isFinite (G12_of input)
              \<or> G1_of input + G12_of input \<le> Fin 0 then None
      else Some \<lparr>
        directivityD =
          (if \<not> isFinite (I1_of input) \<or> I1_of input \<le> Fin 0 then NaN
           else Math_pow ((Fin 2 * Math_PI * W_of input) / wavelength (frHz input)) 2
                  * (Math_PI / I1_of input)),
        directivityDBi =
          (if \<not> isFinite (I1_of input) \<or> I1_of input \<le> Fin 0 then NaN
           else Fin 10 * Math_log10
                  (Math_pow ((Fin 2 * Math_PI * W_of input) / wavelength (frHz input)) 2
                     * (Math_PI / I1_of input))),
        lambda0 = wavelength (frHz input),
        W = W_of input, L = L_of input, L_eff = L_eff_of input,
        epsilonReff = epsilonReff_of input, G1 = G1_of input, G12 = G12_of input,
        RinAtEdge = RinAtEdge_of input,
        y0_50ohm = rect_y0_50ohm (RinAtEdge_of input) (L_of input)\<rparr>)"
  by (simp add: computeRectangularPatch_def Let_def W_of_def epsilonReff_of_def L_of_def
        L_eff_of_def G1_of_def G12_of_def I1_of_def RinAtEdge_of_def)

text \<open>
  Claim C2. \<^verbatim>\<open>computeRectangularPatch\<close> is a total function (it has no \<^verbatim>\<open>throw\<close>), and
  on every input it returns \<^verbatim>\<open>null\<close> exactly when the input is invalid (\<open>frHz \<le> 0\<close>, or
  \<open>epsilonR < 1\<close>, or \<open>hM \<le> 0\<close>) or the conductance sum \<open>G1 + G12\<close> it computes is not
  finite or is \<open>\<le> 0\<close>; on every other input it returns a record.
\<close>

theorem computeRectangularPatch_null_iff:
  "computeRectangularPatch input = None
   \<longleftrightarrow> (frHz input \<le> Fin 0 \<or> epsilonR input < Fin 1 \<or> hM input \<le> Fin 0)
       \<or> \<not> isFinite (G1_of input + G12_of input)
       \<or> G1_of input + G12_of input \<le> Fin 0"
  by (simp add: computeRectangularPatch_unfold isFinite_plus)

text \<open>
  Claim C7. When \<^verbatim>\<open>computeRectangularPatch\<close> returns a record and the double integral
  \<open>I1\<close> is not finite or is \<open>\<le> 0\<close>, the record carries the dimensions, the conductances,
  the edge resistance, the feed inset and the wavelength as computed, and both
  directivities are not-a-number.
\<close>

theorem computeRectangularPatch_partial_result:
  assumes "computeRectangularPatch input = Some r"
    and "\<not> isFinite (I1_of input) \<or> I1_of input \<le> Fin 0"
  shows "r = \<lparr>directivityD = NaN, directivityDBi = NaN, lambda0 = wavelength (frHz input),
               W = W_of input, L = L_of input, L_eff = L_eff_of input,
               epsilonReff = epsilonReff_of input, G1 = G1_of input, G12 = G12_of input,
               RinAtEdge = RinAtEdge_of input,
               y0_50ohm = rect_y0_50ohm (RinAtEdge_of input) (L_of input)\<rparr>"
  using assms unfolding computeRectangularPatch_unfold
  by (auto split: if_splits)

lemma RinAtEdge_positive:
  assumes "computeRectangularPatch input = Some r"
  shows "\<exists>x. 0 < x \<and> RinAtEdge r = Fin x \<and> L r = L_of input
           \<and> y0_50ohm r = rect_y0_50ohm (Fin x) (L_of input)"
proof -
  from assms have fin: "isFinite (G1_of input)" "isFinite (G12_of input)"
    and pos: "\<not> G1_of input + G12_of input \<le> Fin 0"
    and r: "RinAtEdge r = RinAtEdge_of input" "L r = L_of input"
       "y0_50ohm r = rect_y0_50ohm (RinAtEdge_of input) (L_of input)"
    unfolding computeRectangularPatch_unfold by (auto split: if_splits)
  from fin obtain g1 g12 where g: "G1_of input = Fin g1" "G12_of input = Fin g12"
    by (auto simp: isFinite_iff)
  with pos have "0 < g1 + g12" by simp
  then have "RinAtEdge_of input = Fin (1 / (2 * (g1 + g12)))" "0 < 1 / (2 * (g1 + g12))"
    by (simp_all add: RinAtEdge_of_def g)
  with r show ?thesis by auto
qed

lemma rect_y0_50ohm_Fin:
  assumes "0 < x"
  shows "rect_y0_50ohm (Fin x) l
         = (if 50 \<le> x \<and> x < 10 ^ 10
            then Some ((l / Math_PI) * Math_acos (Math_sqrt (Fin 50 / Fin x))) else None)"
  using assms by (simp add: rect_y0_50ohm_def Let_def)

text \<open>
  Claim C8. In every record that \<^verbatim>\<open>computeRectangularPatch\<close> returns, the feed inset
  \<open>y0_50ohm\<close> is not \<^verbatim>\<open>null\<close> exactly when \<open>50 \<le> RinAtEdge < 1e10\<close>, and then it is
  \<open>(L / \<pi>) * acos (sqrt (50 / RinAtEdge))\<close>.
\<close>

theorem feed_inset_iff:
  assumes "computeRectangularPatch input = Some r"
  shows "(y0_50ohm r \<noteq> None \<longleftrightarrow> Fin 50 \<le> RinAtEdge r \<and> RinAtEdge r < Fin (10 ^ 10))
       \<and> (Fin 50 \<le> RinAtEdge r \<and> RinAtEdge r < Fin (10 ^ 10) \<longrightarrow>
            y0_50ohm r = Some ((L r / Math_PI) * Math_acos (Math_sqrt (Fin 50 / RinAtEdge r))))"
proof -
  from RinAtEdge_positive [OF assms] obtain x where x: "0 < x" "RinAtEdge r = Fin x"
    "L r = L_of input" "y0_50ohm r = rect_y0_50ohm (Fin x) (L_of input)"
    by blast
  show ?thesis
    unfolding x(4) x(2) x(3) rect_y0_50ohm_Fin [OF x(1)] by simp
qed

section \<open>The conductance integrals on finite values\<close>

lemma simpson_Fin_real:
  assumes "\<And>x. f (Fin x) = Fin (g x)" and "even n" "0 < n"
  shows "simpson f (Fin lo) (Fin hi) n = Fin (simpson_real g lo hi n)"
  unfolding simpson_real_def using assms by (rule simpson_Fin)

lemma simpson_real_add:
  "simpson_real (\<lambda>x. g1 x + g2 x) lo hi n = simpson_real g1 lo hi n + simpson_real g2 lo hi n"
  by (simp add: simpson_real_def sum.distrib algebra_simps)

lemma simpson_weight_pos: "0 < simpson_weight j"
  by (simp add: simpson_weight_def)

lemma simpson_real_pos:
  assumes "lo < hi" and "m < n" "0 < m"
    and nonneg: "\<And>x. lo \<le> x \<Longrightarrow> x \<le> hi \<Longrightarrow> 0 \<le> g x"
    and pos: "0 < g (lo + real m * ((hi - lo) / real n))"
  shows "0 < simpson_real g lo hi n"
proof -
  have n: "0 < real n" using assms by simp
  have step: "0 < (hi - lo) / real n" using assms n by simp
  have inside: "lo \<le> lo + real j * ((hi - lo) / real n)
              \<and> lo + real j * ((hi - lo) / real n) \<le> hi" if "j < n" for j
  proof -
    have "real j * ((hi - lo) / real n) \<le> real n * ((hi - lo) / real n)"
      using that step by (intro mult_right_mono) simp_all
    also have "\<dots> = hi - lo" using n by simp
    finally have "lo + real j * ((hi - lo) / real n) \<le> hi" by simp
    moreover have "0 \<le> real j * ((hi - lo) / real n)"
      using step by (intro mult_nonneg_nonneg) simp_all
    ultimately show ?thesis by simp
  qed
  have "0 < (\<Sum>j = 1..<n. simpson_weight j * g (lo + real j * ((hi - lo) / real n)))"
  proof (rule sum_pos2 [where i = m])
    show "finite {1..<n}" by simp
    show "m \<in> {1..<n}" using assms by simp
    show "0 < simpson_weight m * g (lo + real m * ((hi - lo) / real n))"
      using pos simpson_weight_pos by simp
    show "0 \<le> simpson_weight j * g (lo + real j * ((hi - lo) / real n))"
      if "j \<in> {1..<n}" for j
      using that inside [of j] nonneg simpson_weight_pos [of j] by simp
  qed
  moreover have "0 \<le> g lo" "0 \<le> g hi" using assms by (simp_all add: nonneg)
  ultimately have "0 < g lo + g hi
      + (\<Sum>j = 1..<n. simpson_weight j * g (lo + real j * ((hi - lo) / real n)))"
    by linarith
  moreover have "0 < (hi - lo) / real n / 3" using step by simp
  ultimately show ?thesis unfolding simpson_real_def by (rule mult_pos_pos [rotated])
qed

lemma k0_Fin: "k0 (Fin fr) = Fin (k0_real fr)"
  by (simp add: k0_def k0_real_def C_def Math_PI_def)

lemma integrandG1_Fin:
  "integrandG1 (Fin kk) (Fin w) (Fin theta) = Fin (integrandG1_real (kk * w) theta)"
proof (cases "\<bar>cos theta\<bar> < 1 / 10 ^ 12")
  case True
  then show ?thesis
    by (simp add: integrandG1_def integrandG1_real_def slot_factor_def eps_def Let_def)
next
  case False
  then have "cos theta \<noteq> 0" by auto
  with False show ?thesis
    by (simp add: integrandG1_def integrandG1_real_def slot_factor_def eps_def Let_def)
qed

lemma safeBesselJ0_Fin: "safeBesselJ0 (Fin x) = Fin (bessel_series 0 x 0 0)"
  using besselJ_is_series_over_factorial [of 0 x]
  by (simp add: safeBesselJ0_def besselJ0_def)

lemma integrandG12_Fin:
  "integrandG12 (Fin kk) (Fin w) (Fin l) (Fin theta)
   = Fin (integrandG12_real (kk * w) (kk * l) theta)"
proof (cases "\<bar>cos theta\<bar> < 1 / 10 ^ 12")
  case True
  then show ?thesis
    by (simp add: integrandG12_def integrandG12_real_def slot_factor_def eps_def Let_def
          safeBesselJ0_Fin)
next
  case False
  then have "cos theta \<noteq> 0" by auto
  with False show ?thesis
    by (simp add: integrandG12_def integrandG12_real_def slot_factor_def eps_def Let_def
          safeBesselJ0_Fin)
qed

lemma rect_G1_Fin:
  "rect_G1 (Fin kk) (Fin w)
   = Fin (1 / (120 * pi * pi) * simpson_real (integrandG1_real (kk * w)) 0 pi 512)"
proof -
  have "simpson (integrandG1 (Fin kk) (Fin w)) (Fin 0) (Fin pi) 512
        = Fin (simpson_real (integrandG1_real (kk * w)) 0 pi 512)"
    by (rule simpson_Fin_real) (simp_all add: integrandG1_Fin)
  then show ?thesis by (simp add: rect_G1_def Math_PI_def)
qed

lemma rect_G12_Fin:
  "rect_G12 (Fin kk) (Fin w) (Fin l)
   = Fin (1 / (120 * pi * pi) * simpson_real (integrandG12_real (kk * w) (kk * l)) 0 pi 512)"
proof -
  have "simpson (integrandG12 (Fin kk) (Fin w) (Fin l)) (Fin 0) (Fin pi) 512
        = Fin (simpson_real (integrandG12_real (kk * w) (kk * l)) 0 pi 512)"
    by (rule simpson_Fin_real) (simp_all add: integrandG12_Fin)
  then show ?thesis by (simp add: rect_G12_def Math_PI_def)
qed

lemma bessel_series_J0_lower:
  assumes "x / 2 * (x / 2) < 2"
  shows "- 1 < bessel_series 0 x 0 0"
proof -
  define q where "q = x / 2 * (x / 2)"
  have q: "0 \<le> q" "q < 2" using assms by (simp_all add: q_def)
  have t0: "bessel_term 0 x 0 = 1" by (simp add: bessel_term_def)
  have t1: "bessel_term 0 x 1 = - q"
    by (simp add: bessel_term_def q_def power2_eq_square)
  have "1 - q \<le> bessel_series 0 x 1 1"
  proof (rule bessel_series_lower)
    show "x / 2 * (x / 2) \<le> real (j + 1) * real (0 + j + 1)" if "1 \<le> j" for j
    proof -
      have "2 \<le> real (j + 1)" using that by simp
      then have "2 * 2 \<le> real (j + 1) * real (j + 1)" by (intro mult_mono) simp_all
      then show ?thesis using q by (simp add: q_def)
    qed
    show "1 - q \<le> 1" using q by simp
    show "1 - q \<le> 1 + bessel_term 0 x 1" unfolding t1 by simp
  qed
  then have "1 - q \<le> bessel_series 0 x 0 0"
    unfolding bessel_series_first [of 0 x] t0 using q by simp
  then show ?thesis using q by simp
qed

lemma slot_factor_nonneg: "0 \<le> slot_factor kw theta"
  by (simp add: slot_factor_def)

lemma slot_factor_half_pi: "slot_factor kw (pi / 2) = kw / 2 * (kw / 2)"
  by (simp add: slot_factor_def)

lemma conductance_sum_pos:
  assumes kw: "kw \<noteq> 0" and kl: "kl / 2 * (kl / 2) < 2"
  shows "0 < simpson_real (integrandG1_real kw) 0 pi 512
           + simpson_real (integrandG12_real kw kl) 0 pi 512"
proof -
  define g where "g theta = integrandG1_real kw theta + integrandG12_real kw kl theta" for theta
  have g: "g theta = slot_factor kw theta * sin theta ^ 3
                       * (1 + bessel_series 0 (kl * sin theta) 0 0)" for theta
    by (simp add: g_def integrandG1_real_def integrandG12_real_def algebra_simps)
  have j0: "0 < 1 + bessel_series 0 (kl * sin theta) 0 0" for theta
  proof -
    have "\<bar>kl * sin theta\<bar> \<le> \<bar>kl\<bar>"
      using abs_sin_le_one [of theta] by (simp add: abs_mult mult_left_le)
    then have "(kl * sin theta)\<^sup>2 \<le> kl\<^sup>2"
      by (simp only: abs_le_square_iff)
    then have "kl * sin theta / 2 * (kl * sin theta / 2) \<le> kl / 2 * (kl / 2)"
      by (simp add: power2_eq_square)
    with kl have "kl * sin theta / 2 * (kl * sin theta / 2) < 2" by simp
    from bessel_series_J0_lower [OF this] show ?thesis by simp
  qed
  have "0 < simpson_real g 0 pi 512"
  proof (rule simpson_real_pos [where m = 256])
    show "(0::real) < pi" by simp
    show "(256::nat) < 512" "(0::nat) < 256" by simp_all
    show "0 \<le> g theta" if "0 \<le> theta" "theta \<le> pi" for theta
    proof -
      have "0 \<le> sin theta" using that by (rule sin_ge_zero)
      then have "0 \<le> slot_factor kw theta * sin theta ^ 3"
        using slot_factor_nonneg by simp
      then show ?thesis unfolding g using j0 [of theta] by simp
    qed
    have "0 + real 256 * ((pi - 0) / real 512) = pi / 2" by simp
    moreover have "0 < g (pi / 2)"
    proof -
      have "0 < (kw / 2)\<^sup>2" using kw by simp
      then have "0 < kw / 2 * (kw / 2)" by (simp only: power2_eq_square)
      then have "0 < kw / 2 * (kw / 2) * (1 + bessel_series 0 (kl * sin (pi / 2)) 0 0)"
        using j0 [of "pi / 2"] by (rule mult_pos_pos)
      then show ?thesis unfolding g slot_factor_half_pi by simp
    qed
    ultimately show "0 < g (0 + real 256 * ((pi - 0) / real 512))" by simp
  qed
  then show ?thesis unfolding g_def simpson_real_add .
qed

section \<open>The dimensions of the rectangular patch on finite values\<close>

lemma pos_imp_nonzero: "0 < (x::real) \<Longrightarrow> x \<noteq> 0"
  by simp

lemma arctan_le_self:
  assumes "0 \<le> y"
  shows "arctan y \<le> y"
proof -
  have "0 - arctan 0 \<le> y - arctan y"
  proof (rule DERIV_nonneg_imp_nondecreasing [of 0 y "\<lambda>x. x - arctan x"])
    show "0 \<le> y" by (rule assms)
    show "\<exists>d. ((\<lambda>x. x - arctan x) has_real_derivative d) (at x) \<and> 0 \<le> d" for x :: real
    proof (intro exI conjI)
      show "((\<lambda>x. x - arctan x) has_real_derivative 1 - inverse (1 + x\<^sup>2)) (at x)"
        by (auto intro!: derivative_eq_intros)
      have "inverse (1 + x\<^sup>2) \<le> 1" by (simp add: inverse_le_1_iff)
      then show "0 \<le> 1 - inverse (1 + x\<^sup>2)" by simp
    qed
  qed
  then show ?thesis by simp
qed

lemma pi_le_16_5: "pi \<le> 16 / 5"
proof -
  have "arctan (1 / 5) \<le> 1 / 5" by (rule arctan_le_self) simp
  moreover have "0 \<le> arctan (1 / 239)" by simp
  ultimately have "4 * arctan (1 / 5) - arctan (1 / 239) \<le> 4 / 5" by linarith
  then have "pi / 4 \<le> 4 / 5" by (simp only: machin)
  then show ?thesis by simp
qed

lemma rect_W_Fin:
  assumes "0 < fr" "1 \<le> e"
  shows "rect_W (Fin fr) (Fin e) = Fin (W_real fr e)" and "0 < W_real fr e"
proof -
  have s: "0 < sqrt (2 / (e + 1))" using assms by simp
  have "\<not> 2 / (e + 1) < 0" using assms by simp
  then show "rect_W (Fin fr) (Fin e) = Fin (W_real fr e)"
    using assms by (simp add: rect_W_def W_real_def C_def)
  have "0 < 299792458 / (2 * fr)" using assms by simp
  then show "0 < W_real fr e" unfolding W_real_def using s by (rule mult_pos_pos)
qed

lemma rect_L_eff_Fin:
  assumes "0 < fr" "1 \<le> ee"
  shows "rect_L_eff (Fin fr) (Fin ee) = Fin (L_eff_real fr ee)" and "0 < L_eff_real fr ee"
proof -
  have s: "0 < sqrt ee" using assms by simp
  then have p: "0 < 2 * fr * sqrt ee" using assms by simp
  then have "2 * fr * sqrt ee \<noteq> 0" by (rule pos_imp_nonzero)
  then show "rect_L_eff (Fin fr) (Fin ee) = Fin (L_eff_real fr ee)"
    using assms by (simp add: rect_L_eff_def L_eff_real_def C_def del: mult_eq_0_iff)
  show "0 < L_eff_real fr ee" unfolding L_eff_real_def using p by simp
qed

lemma rect_L_Fin:
  assumes "0 < fr" "0 < h" "0 < w" "1 \<le> ee"
  shows "rect_L (Fin fr) (Fin h) (Fin w) (Fin ee)
         = Fin (L_eff_real fr ee - deltaL_real ee w h)"
proof -
  have s: "0 < sqrt ee" using assms by simp
  then have p: "2 * fr * sqrt ee \<noteq> 0" using assms by simp
  have "0 < w / h" using assms by simp
  then have q: "0 < w / h + 0.8" by simp
  have "0 < ee - 0.258" using assms by simp
  with q have "0 < (ee - 0.258) * (w / h + 0.8)" by (rule mult_pos_pos [rotated])
  then have d: "(ee - 0.258) * (w / h + 0.8) \<noteq> 0" by (rule pos_imp_nonzero)
  have 1: "C / (Fin 2 * Fin fr * Math_sqrt (Fin ee)) = Fin (L_eff_real fr ee)"
    using rect_L_eff_Fin(1) [OF assms(1,4)] by (simp add: rect_L_eff_def)
  have 2: "(Fin ee + Fin 0.3) * (Fin w / Fin h + Fin 0.264)
           = Fin ((ee + 0.3) * (w / h + 0.264))"
    using assms by simp
  have 3: "(Fin ee - Fin 0.258) * (Fin w / Fin h + Fin 0.8)
           = Fin ((ee - 0.258) * (w / h + 0.8))"
    using assms by simp
  have 4: "Fin ((ee + 0.3) * (w / h + 0.264)) / Fin ((ee - 0.258) * (w / h + 0.8))
           = Fin ((ee + 0.3) * (w / h + 0.264) / ((ee - 0.258) * (w / h + 0.8)))"
    using d by (rule Fin_divide)
  have 5: "Fin 0.824 * Fin h
             * Fin ((ee + 0.3) * (w / h + 0.264) / ((ee - 0.258) * (w / h + 0.8)))
           = Fin (deltaL_real ee w h)"
    by (simp only: Fin_times deltaL_real_def)
  show ?thesis
    unfolding rect_L_def Let_def 1 2 3 4 5 by (rule Fin_minus)
qed

lemma deltaL_real_bounds:
  assumes "3 / 2 \<le> ee" "0 < w" "0 < h"
  shows "0 < deltaL_real ee w h"
    and "deltaL_real ee w h \<le> 0.824 * h * (1.8 / 1.242)"
proof -
  define p where "p = w / h + 0.264"
  define q where "q = w / h + 0.8"
  have wh: "0 < w / h" using assms by simp
  have p: "0 < p" "p \<le> q" and q: "0 < q" using wh by (simp_all add: p_def q_def)
  have a: "0 < ee + 0.3" and b: "0 < ee - 0.258" using assms by simp_all
  have ab: "(ee + 0.3) * 1.242 \<le> 1.8 * (ee - 0.258)" using assms by simp
  have num: "0 < (ee + 0.3) * p" using a p by (intro mult_pos_pos)
  have den: "0 < (ee - 0.258) * q" using b q by (intro mult_pos_pos)
  have ratio: "0 < (ee + 0.3) * p / ((ee - 0.258) * q)" using num den by simp
  have eq: "deltaL_real ee w h = 0.824 * h * ((ee + 0.3) * p / ((ee - 0.258) * q))"
    by (simp add: deltaL_real_def p_def q_def)
  have "0 < 0.824 * h" using assms by simp
  then show "0 < deltaL_real ee w h" unfolding eq using ratio by (rule mult_pos_pos)
  have "(ee + 0.3) * 1.242 * p \<le> 1.8 * (ee - 0.258) * q"
  proof (rule mult_mono)
    show "(ee + 0.3) * 1.242 \<le> 1.8 * (ee - 0.258)" by (rule ab)
    show "p \<le> q" by (rule p(2))
    show "0 \<le> 1.8 * (ee - 0.258)" using b by simp
    show "0 \<le> p" using p(1) by simp
  qed
  then have "(ee + 0.3) * p * 1.242 \<le> 1.8 * ((ee - 0.258) * q)"
    by (simp only: mult_ac)
  moreover define u where "u = (ee + 0.3) * p"
  moreover define v where "v = (ee - 0.258) * q"
  ultimately have "u * 1.242 \<le> 1.8 * v" and "0 < v" using den by simp_all
  then have "u / v \<le> 1.8 / 1.242" by (simp add: field_simps)
  then have "(ee + 0.3) * p / ((ee - 0.258) * q) \<le> 1.8 / 1.242"
    unfolding u_def v_def .
  then show "deltaL_real ee w h \<le> 0.824 * h * (1.8 / 1.242)"
    unfolding eq using assms by (intro mult_left_mono) simp_all
qed

lemma sqrt_10_le: "sqrt 10 \<le> 16 / 5"
  by (rule real_le_lsqrt) (simp_all add: power2_eq_square)

lemma L_eff_real_lower:
  assumes "0 < fr" "fr \<le> 10 ^ 10" "1 \<le> ee" "ee \<le> 10"
  shows "299792458 / (64 * 10 ^ 9) \<le> L_eff_real fr ee"
proof -
  have "sqrt ee \<le> sqrt 10" using assms by simp
  then have s: "sqrt ee \<le> 16 / 5" using sqrt_10_le by linarith
  have s0: "0 < sqrt ee" using assms by simp
  have "2 * fr * sqrt ee \<le> 2 * 10 ^ 10 * (16 / 5)"
    using assms s s0 by (intro mult_mono) simp_all
  then have le: "2 * fr * sqrt ee \<le> 64 * 10 ^ 9" by simp
  have pos: "0 < 2 * fr * sqrt ee" using assms s0 by simp
  have "0 < 64 * 10 ^ 9 * (2 * fr * sqrt ee)" using pos by simp
  with le show ?thesis unfolding L_eff_real_def
    by (intro divide_left_mono) simp_all
qed

lemma k0_times_L_eff:
  assumes "0 < fr" "0 < ee"
  shows "k0_real fr * L_eff_real fr ee = pi / sqrt ee"
  using assms by (simp add: k0_real_def L_eff_real_def)

lemma k0_real_pos: "0 < fr \<Longrightarrow> 0 < k0_real fr"
  by (simp add: k0_real_def)

section \<open>The rectangular solver on the design range\<close>

lemma deltaL_Fin:
  assumes "0 < h" "0 < w" "1 \<le> ee"
  shows "Fin 0.824 * Fin h
           * ((Fin ee + Fin 0.3) * (Fin w / Fin h + Fin 0.264)
               / ((Fin ee - Fin 0.258) * (Fin w / Fin h + Fin 0.8)))
         = Fin (deltaL_real ee w h)"
proof -
  have "0 < w / h" using assms by simp
  then have q: "0 < w / h + 0.8" by simp
  have "0 < ee - 0.258" using assms by simp
  with q have "0 < (ee - 0.258) * (w / h + 0.8)" by (rule mult_pos_pos [rotated])
  then have d: "(ee - 0.258) * (w / h + 0.8) \<noteq> 0" by (rule pos_imp_nonzero)
  have 2: "(Fin ee + Fin 0.3) * (Fin w / Fin h + Fin 0.264)
           = Fin ((ee + 0.3) * (w / h + 0.264))"
    using assms by simp
  have 3: "(Fin ee - Fin 0.258) * (Fin w / Fin h + Fin 0.8)
           = Fin ((ee - 0.258) * (w / h + 0.8))"
    using assms by simp
  have 4: "Fin ((ee + 0.3) * (w / h + 0.264)) / Fin ((ee - 0.258) * (w / h + 0.8))
           = Fin ((ee + 0.3) * (w / h + 0.264) / ((ee - 0.258) * (w / h + 0.8)))"
    using d by (rule Fin_divide)
  show ?thesis
    unfolding 2 3 4 by (simp only: Fin_times deltaL_real_def)
qed

lemma rect_range:
  assumes "10 ^ 9 \<le> fr" "fr \<le> 10 ^ 10" "2 \<le> e" "e \<le> 10" "2 / 10 ^ 4 \<le> h" "h \<le> 3 / 10 ^ 3"
  defines "w \<equiv> W_real fr e"
  defines "ee \<equiv> effectiveEpsilon_real e w h"
  defines "l \<equiv> L_eff_real fr ee - deltaL_real ee w h"
  shows "0 < w" and "3 / 2 \<le> ee" and "ee \<le> 10" and "0 < l"
    and "k0_real fr * l / 2 * (k0_real fr * l / 2) < 2"
proof -
  have fr: "0 < fr" and e: "1 \<le> e" and h: "0 < h" using assms by simp_all
  show w: "0 < w" unfolding w_def using fr e by (rule rect_W_Fin(2))
  note eb = effectiveEpsilon_real_bounds(1,2) [OF e h w]
  show ee: "3 / 2 \<le> ee" "ee \<le> 10" using eb assms(3,4) by (simp_all add: ee_def)
  note db = deltaL_real_bounds [OF ee(1) w h]
  have "deltaL_real ee w h \<le> 0.824 * (3 / 10 ^ 3) * (1.8 / 1.242)"
    using db(2) assms(6) by simp
  moreover have "299792458 / (64 * 10 ^ 9) \<le> L_eff_real fr ee"
    using fr assms(2) ee by (intro L_eff_real_lower) simp_all
  ultimately show l: "0 < l" unfolding l_def by simp
  have k: "0 < k0_real fr" using fr by (rule k0_real_pos)
  define m where "m = pi / sqrt ee / 2"
  have see: "0 < sqrt ee" using ee by simp
  have "l < L_eff_real fr ee" unfolding l_def using db(1) by simp
  then have "k0_real fr * l < k0_real fr * L_eff_real fr ee"
    using k by (simp only: mult_less_cancel_left_pos)
  also have "\<dots> = pi / sqrt ee" using fr ee by (intro k0_times_L_eff) simp_all
  finally have lt: "k0_real fr * l / 2 < m" unfolding m_def by simp
  have ge: "0 \<le> k0_real fr * l / 2" using k l by simp
  have "k0_real fr * l / 2 * (k0_real fr * l / 2) \<le> m * m"
    using lt ge by (intro mult_mono) simp_all
  also have "m * m = pi * pi / (ee * 4)"
    using ee by (simp add: m_def)
  also have "\<dots> \<le> 16 / 5 * (16 / 5) / (3 / 2 * 4)"
  proof (rule frac_le)
    show "pi * pi \<le> 16 / 5 * (16 / 5)" using pi_le_16_5 by (intro mult_mono) simp_all
    show "3 / 2 * 4 \<le> ee * 4" using ee by simp
  qed simp_all
  also have "\<dots> < 2" by simp
  finally show "k0_real fr * l / 2 * (k0_real fr * l / 2) < 2" .
qed

lemma rect_values_Fin:
  assumes "0 < fr" "1 \<le> e" "0 < h"
  defines "input \<equiv> \<lparr>epsilonR = Fin e, hM = Fin h, frHz = Fin fr\<rparr>"
  defines "w \<equiv> W_real fr e"
  defines "ee \<equiv> effectiveEpsilon_real e w h"
  defines "l \<equiv> L_eff_real fr ee - deltaL_real ee w h"
  shows "W_of input = Fin w" and "epsilonReff_of input = Fin ee" and "L_of input = Fin l"
    and "G1_of input
         = Fin (1 / (120 * pi * pi) * simpson_real (integrandG1_real (k0_real fr * w)) 0 pi 512)"
    and "G12_of input
         = Fin (1 / (120 * pi * pi)
                * simpson_real (integrandG12_real (k0_real fr * w) (k0_real fr * l)) 0 pi 512)"
proof -
  have w: "0 < w" unfolding w_def using assms(1,2) by (rule rect_W_Fin(2))
  show 1: "W_of input = Fin w"
    unfolding W_of_def input_def w_def using rect_W_Fin(1) [OF assms(1,2)] by simp
  show 2: "epsilonReff_of input = Fin ee"
    unfolding epsilonReff_of_def 1 ee_def using effectiveEpsilon_Fin [OF assms(3) w]
    by (simp add: input_def)
  have ee: "1 \<le> ee"
    using effectiveEpsilon_real_bounds(1) [OF assms(2,3) w] assms(2) by (simp add: ee_def)
  show 3: "L_of input = Fin l"
    unfolding L_of_def 1 2 l_def using rect_L_Fin [OF assms(1,3) w ee]
    by (simp add: input_def)
  show "G1_of input
         = Fin (1 / (120 * pi * pi) * simpson_real (integrandG1_real (k0_real fr * w)) 0 pi 512)"
    unfolding G1_of_def 1 by (simp add: input_def k0_Fin rect_G1_Fin)
  show "G12_of input
         = Fin (1 / (120 * pi * pi)
                * simpson_real (integrandG12_real (k0_real fr * w) (k0_real fr * l)) 0 pi 512)"
    unfolding G12_of_def 1 3 by (simp add: input_def k0_Fin rect_G12_Fin)
qed

lemma computeRectangularPatch_in_range:
  assumes "10 ^ 9 \<le> fr" "fr \<le> 10 ^ 10" "2 \<le> e" "e \<le> 10" "2 / 10 ^ 4 \<le> h" "h \<le> 3 / 10 ^ 3"
  shows "\<exists>r. computeRectangularPatch \<lparr>epsilonR = Fin e, hM = Fin h, frHz = Fin fr\<rparr> = Some r"
proof -
  define input where "input = \<lparr>epsilonR = Fin e, hM = Fin h, frHz = Fin fr\<rparr>"
  define w where "w = W_real fr e"
  define ee where "ee = effectiveEpsilon_real e w h"
  define l where "l = L_eff_real fr ee - deltaL_real ee w h"
  have fr: "0 < fr" and e: "1 \<le> e" and h: "0 < h" using assms by simp_all
  note rg = rect_range [OF assms, folded w_def, folded ee_def, folded l_def]
  note v = rect_values_Fin [OF fr e h, folded input_def, folded w_def, folded ee_def,
    folded l_def]
  have "k0_real fr * w \<noteq> 0" using k0_real_pos [OF fr] rg(1) by simp
  from conductance_sum_pos [OF this rg(5)]
  have "0 < 1 / (120 * pi * pi)
             * (simpson_real (integrandG1_real (k0_real fr * w)) 0 pi 512
                + simpson_real (integrandG12_real (k0_real fr * w) (k0_real fr * l)) 0 pi 512)"
    by (intro mult_pos_pos) simp_all
  then have "\<not> G1_of input + G12_of input \<le> Fin 0"
    unfolding v(4,5) by (simp add: algebra_simps)
  moreover have "isFinite (G1_of input)" "isFinite (G12_of input)"
    unfolding v(4,5) by simp_all
  moreover have "\<not> (frHz input \<le> Fin 0 \<or> epsilonR input < Fin 1 \<or> hM input \<le> Fin 0)"
    using fr e h by (simp add: input_def)
  ultimately show ?thesis
    unfolding input_def [symmetric] computeRectangularPatch_unfold by simp
qed

lemma computeRectangularPatch_fields:
  assumes "computeRectangularPatch input = Some r"
  shows "W r = W_of input" and "L r = L_of input" and "G1 r = G1_of input"
    and "G12 r = G12_of input" and "RinAtEdge r = RinAtEdge_of input"
  using assms unfolding computeRectangularPatch_unfold by (auto split: if_splits)

lemma reverse_frequency:
  assumes "0 < fr" "1 \<le> ee"
  shows "C / (Fin 2 * Math_sqrt (Fin ee) * (Fin (L_eff_real fr ee - d) + Fin d)) = Fin fr"
proof -
  have s: "0 < sqrt ee" using assms by simp
  have "2 * sqrt ee * L_eff_real fr ee = 299792458 / fr"
    using assms s by (simp add: L_eff_real_def)
  moreover have "299792458 / fr \<noteq> 0" using assms by simp
  ultimately have nz: "2 * sqrt ee * L_eff_real fr ee \<noteq> 0"
    and v: "299792458 / (2 * sqrt ee * L_eff_real fr ee) = fr"
    using assms by simp_all
  have "Fin 2 * Math_sqrt (Fin ee) * (Fin (L_eff_real fr ee - d) + Fin d)
        = Fin (2 * sqrt ee * L_eff_real fr ee)"
    using assms by simp
  then show ?thesis using nz v by (simp add: C_def del: mult_eq_0_iff)
qed

text \<open>
  Claim C1. For every \<open>frHz\<close> in \<open>[1e9, 10e9]\<close>, \<open>epsilonR\<close> in \<open>[2, 10]\<close> and \<open>hM\<close> in
  \<open>[0.2e-3, 3e-3]\<close> the forward solver returns a record, and the reverse solver on the
  width and length of that record succeeds and recovers the frequency: over exact
  arithmetic it is the original frequency itself, so the relative error is zero, and the
  record it returns is the one of the forward solver.
\<close>

theorem rectangular_round_trip:
  assumes "10 ^ 9 \<le> fr" "fr \<le> 10 ^ 10" "2 \<le> e" "e \<le> 10" "2 / 10 ^ 4 \<le> h" "h \<le> 3 / 10 ^ 3"
  shows "\<exists>r. computeRectangularPatch \<lparr>epsilonR = Fin e, hM = Fin h, frHz = Fin fr\<rparr> = Some r
           \<and> computeRectangularPatchReverse
                 \<lparr>epsilonR = Fin e, hM = Fin h, WM = W r, LM = L r\<rparr> = Some (Fin fr, r)"
proof -
  define input where "input = \<lparr>epsilonR = Fin e, hM = Fin h, frHz = Fin fr\<rparr>"
  define w where "w = W_real fr e"
  define ee where "ee = effectiveEpsilon_real e w h"
  define l where "l = L_eff_real fr ee - deltaL_real ee w h"
  have fr: "0 < fr" and e: "1 \<le> e" and h: "0 < h" using assms by simp_all
  note rg = rect_range [OF assms, folded w_def, folded ee_def, folded l_def]
  note v = rect_values_Fin [OF fr e h, folded input_def, folded w_def, folded ee_def,
    folded l_def]
  from computeRectangularPatch_in_range [OF assms]
  obtain r where r: "computeRectangularPatch input = Some r"
    unfolding input_def by blast
  have wr: "W r = Fin w" and lr: "L r = Fin l"
    using computeRectangularPatch_fields(1,2) [OF r] v(1,3) by simp_all
  have ee1: "1 \<le> ee" using rg(2) by simp
  have guard: "\<not> (Fin w \<le> Fin 0 \<or> Fin l \<le> Fin 0 \<or> Fin e < Fin 1 \<or> Fin h \<le> Fin 0)"
    using rg(1,4) e h by simp
  have a: "effectiveEpsilon (Fin e) (Fin w) (Fin h) = Fin ee"
    unfolding ee_def using h rg(1) by (rule effectiveEpsilon_Fin)
  note b = deltaL_Fin [OF h rg(1) ee1]
  have c: "C / (Fin 2 * Math_sqrt (Fin ee) * (Fin l + Fin (deltaL_real ee w h))) = Fin fr"
    unfolding l_def using fr ee1 by (rule reverse_frequency)
  have d: "\<not> (\<not> isFinite (Fin fr) \<or> Fin fr \<le> Fin 0)" using fr by simp
  have "computeRectangularPatchReverse \<lparr>epsilonR = Fin e, hM = Fin h, WM = Fin w, LM = Fin l\<rparr>
        = Some (Fin fr, r)"
    unfolding computeRectangularPatchReverse_def Let_def
    by (simp only: RectangularPatchInputReverse.simps Substrate.simps guard if_False a b c d
          r [unfolded input_def] option.case)
  with r wr lr show ?thesis unfolding input_def by simp
qed

theorem rectangular_round_trip_witness:
  "(10::real) ^ 9 \<le> 2400000000 \<and> (2400000000::real) \<le> 10 ^ 10 \<and> (2::real) \<le> 4.4
   \<and> (4.4::real) \<le> 10 \<and> (2::real) / 10 ^ 4 \<le> 0.0016 \<and> (0.0016::real) \<le> 3 / 10 ^ 3
   \<and> (\<exists>r. computeRectangularPatch
               \<lparr>epsilonR = Fin 4.4, hM = Fin 0.0016, frHz = Fin 2400000000\<rparr> = Some r
          \<and> computeRectangularPatchReverse
               \<lparr>epsilonR = Fin 4.4, hM = Fin 0.0016, WM = W r, LM = L r\<rparr>
              = Some (Fin 2400000000, r))"
  using rectangular_round_trip [of 2400000000 "4.4" "0.0016"] by simp

section \<open>The rectangular solver at concrete inputs\<close>

lemma simpson_loop_NaN: "simpson_loop f lo h n i NaN = NaN"
proof (induction "n - i" arbitrary: i)
  case 0
  then show ?case by (subst simpson_loop.simps) simp
next
  case (Suc d)
  then have "d = n - (i + 1)" by simp
  from Suc.hyps(1) [OF this] show ?case
    by (subst simpson_loop.simps) (simp add: Let_def)
qed

lemma simpson_NaN:
  assumes "\<And>x. f x = NaN"
  shows "simpson f lo hi n = NaN"
  by (simp add: simpson_def Let_def assms simpson_loop_NaN)

lemma simpson2D_loop_NaN:
  assumes "\<And>x. simpson (f x) c d nInner = NaN" and "tot = NaN \<or> i \<le> nOuter"
  shows "simpson2D_loop f lo hO c d nOuter nInner i tot = NaN"
  using assms(2)
proof (induction "nOuter + 1 - i" arbitrary: i tot)
  case 0
  then show ?case by (subst simpson2D_loop.simps) auto
next
  case (Suc k)
  then have k: "k = nOuter + 1 - (i + 1)" and i: "i \<le> nOuter" by auto
  have "simpson2D_loop f lo hO c d nOuter nInner (i + 1) NaN = NaN"
    by (rule Suc.hyps(1) [OF k]) simp
  then show ?case
    using i by (subst simpson2D_loop.simps) (simp add: Let_def assms(1))
qed

lemma integrandI1_NaN: "integrandI1 k w NaN theta phi = NaN"
  by (simp add: integrandI1_def Let_def)

lemma rect_I1_NaN: "rect_I1 k w NaN = NaN"
proof -
  have "simpson (integrandI1 k w NaN x) c d n = NaN" for x c d n
    by (rule simpson_NaN) (rule integrandI1_NaN)
  then have "simpson2D_loop (integrandI1 k w NaN) lo hO c d 128 128 0 (Fin 0) = NaN"
    for lo hO c d
    by (intro simpson2D_loop_NaN) simp_all
  then show ?thesis by (simp add: rect_I1_def simpson2D_def Let_def)
qed

lemma safeBesselJ0_NaN: "safeBesselJ0 NaN = Fin 0"
  by (simp add: safeBesselJ0_def besselJ0_def besselJ_def)

lemma integrandG12_NaN: "integrandG12 (Fin kk) (Fin w) NaN (Fin theta) = Fin 0"
proof (cases "\<bar>cos theta\<bar> < 1 / 10 ^ 12")
  case True
  then show ?thesis
    by (simp add: integrandG12_def eps_def Let_def safeBesselJ0_NaN)
next
  case False
  then have "cos theta \<noteq> 0" by auto
  with False show ?thesis
    by (simp add: integrandG12_def eps_def Let_def safeBesselJ0_NaN)
qed

lemma rect_G12_NaN: "rect_G12 (Fin kk) (Fin w) NaN = Fin 0"
proof -
  have "simpson (integrandG12 (Fin kk) (Fin w) NaN) (Fin 0) (Fin pi) 512
        = Fin (simpson_real (\<lambda>x. 0) 0 pi 512)"
    by (rule simpson_Fin_real) (simp_all add: integrandG12_NaN)
  then show ?thesis by (simp add: rect_G12_def Math_PI_def simpson_real_def)
qed

lemma conductance_G1_pos:
  assumes "kw \<noteq> 0"
  shows "0 < simpson_real (integrandG1_real kw) 0 pi 512"
proof (rule simpson_real_pos [where m = 256])
  show "(0::real) < pi" by simp
  show "(256::nat) < 512" "(0::nat) < 256" by simp_all
  show "0 \<le> integrandG1_real kw theta" if "0 \<le> theta" "theta \<le> pi" for theta
  proof -
    have "0 \<le> sin theta" using that by (rule sin_ge_zero)
    then show ?thesis
      unfolding integrandG1_real_def using slot_factor_nonneg by simp
  qed
  have "0 < (kw / 2)\<^sup>2" using assms by simp
  then have "0 < kw / 2 * (kw / 2)" by (simp only: power2_eq_square)
  then have "0 < integrandG1_real kw (pi / 2)"
    unfolding integrandG1_real_def slot_factor_half_pi by simp
  moreover have "0 + real 256 * ((pi - 0) / real 512) = pi / 2" by simp
  ultimately show "0 < integrandG1_real kw (0 + real 256 * ((pi - 0) / real 512))" by simp
qed

text \<open>
  A height that is not-a-number passes the guard. The length and the effective length are
  then not-a-number, \<^verbatim>\<open>safeBesselJ0\<close> turns the Bessel factor of \<open>G12\<close> into zero, so that
  \<open>G1 + G12 = G1 > 0\<close>, and the double integral \<open>I1\<close> is not-a-number: this is an input
  on which the solver returns a record with directivities that are not-a-number.
\<close>

lemma computeRectangularPatch_NaN_height:
  assumes "0 < fr" "1 \<le> e"
  defines "input \<equiv> \<lparr>epsilonR = Fin e, hM = NaN, frHz = Fin fr\<rparr>"
  shows "\<exists>r. computeRectangularPatch input = Some r" and "I1_of input = NaN"
proof -
  note w = rect_W_Fin [OF assms(1,2)]
  have 1: "W_of input = Fin (W_real fr e)"
    unfolding W_of_def input_def using w(1) by simp
  have 2: "epsilonReff_of input = NaN"
    unfolding epsilonReff_of_def 1 by (simp add: input_def effectiveEpsilon_def)
  have 3: "L_of input = NaN"
    unfolding L_of_def 1 2 by (simp add: input_def rect_L_def Let_def)
  have 4: "L_eff_of input = NaN"
    unfolding L_eff_of_def 2 by (simp add: input_def rect_L_eff_def)
  show "I1_of input = NaN"
    unfolding I1_of_def 4 by (rule rect_I1_NaN)
  have kw: "k0_real fr * W_real fr e \<noteq> 0"
    using k0_real_pos [OF assms(1)] w(2) by simp
  have 5: "G1_of input = Fin (1 / (120 * pi * pi)
             * simpson_real (integrandG1_real (k0_real fr * W_real fr e)) 0 pi 512)"
    unfolding G1_of_def 1 by (simp add: input_def k0_Fin rect_G1_Fin)
  have 6: "G12_of input = Fin 0"
    unfolding G12_of_def 1 3 by (simp add: input_def k0_Fin rect_G12_NaN)
  have "0 < 1 / (120 * pi * pi)
             * simpson_real (integrandG1_real (k0_real fr * W_real fr e)) 0 pi 512"
    using conductance_G1_pos [OF kw] by (intro mult_pos_pos) simp_all
  then have "\<not> G1_of input + G12_of input \<le> Fin 0"
    unfolding 5 6 by simp
  moreover have "isFinite (G1_of input)" "isFinite (G12_of input)"
    unfolding 5 6 by simp_all
  moreover have "\<not> (frHz input \<le> Fin 0 \<or> epsilonR input < Fin 1 \<or> hM input \<le> Fin 0)"
    using assms(1,2) by (simp add: input_def)
  ultimately show "\<exists>r. computeRectangularPatch input = Some r"
    unfolding computeRectangularPatch_unfold by simp
qed

theorem computeRectangularPatch_null_iff_witness:
  "computeRectangularPatch \<lparr>epsilonR = Fin 4.4, hM = Fin 0.0016, frHz = Fin 0\<rparr> = None
   \<and> computeRectangularPatch \<lparr>epsilonR = Fin 4.4, hM = Fin 0.0016, frHz = Fin 2400000000\<rparr>
       \<noteq> None
   \<and> isFinite (G1_of \<lparr>epsilonR = Fin 4.4, hM = Fin 0.0016, frHz = Fin 2400000000\<rparr>
                + G12_of \<lparr>epsilonR = Fin 4.4, hM = Fin 0.0016, frHz = Fin 2400000000\<rparr>)
   \<and> \<not> G1_of \<lparr>epsilonR = Fin 4.4, hM = Fin 0.0016, frHz = Fin 2400000000\<rparr>
          + G12_of \<lparr>epsilonR = Fin 4.4, hM = Fin 0.0016, frHz = Fin 2400000000\<rparr> \<le> Fin 0"
proof -
  define input where "input = \<lparr>epsilonR = Fin 4.4, hM = Fin 0.0016, frHz = Fin 2400000000\<rparr>"
  have none: "computeRectangularPatch \<lparr>epsilonR = Fin 4.4, hM = Fin 0.0016, frHz = Fin 0\<rparr>
              = None"
    using computeRectangularPatch_null_iff
      [of "\<lparr>epsilonR = Fin 4.4, hM = Fin 0.0016, frHz = Fin 0\<rparr>"]
    by simp
  have some: "computeRectangularPatch input \<noteq> None"
    unfolding input_def
    using computeRectangularPatch_in_range [of 2400000000 "4.4" "0.0016"] by auto
  then have "\<not> (\<not> isFinite (G1_of input + G12_of input)
                 \<or> G1_of input + G12_of input \<le> Fin 0)"
    using computeRectangularPatch_null_iff [of input] by simp
  with none some show ?thesis unfolding input_def by simp
qed

theorem computeRectangularPatch_partial_result_witness:
  "\<exists>r. computeRectangularPatch \<lparr>epsilonR = Fin 4.4, hM = NaN, frHz = Fin 2400000000\<rparr> = Some r
     \<and> \<not> isFinite (I1_of \<lparr>epsilonR = Fin 4.4, hM = NaN, frHz = Fin 2400000000\<rparr>)
     \<and> directivityD r = NaN \<and> directivityDBi r = NaN
     \<and> W r = W_of \<lparr>epsilonR = Fin 4.4, hM = NaN, frHz = Fin 2400000000\<rparr>
     \<and> G1 r = G1_of \<lparr>epsilonR = Fin 4.4, hM = NaN, frHz = Fin 2400000000\<rparr>"
proof -
  define input where "input = \<lparr>epsilonR = Fin 4.4, hM = NaN, frHz = Fin 2400000000\<rparr>"
  from computeRectangularPatch_NaN_height [of 2400000000 "4.4"]
  obtain r where r: "computeRectangularPatch input = Some r" and i: "I1_of input = NaN"
    unfolding input_def by auto
  have bad: "\<not> isFinite (I1_of input) \<or> I1_of input \<le> Fin 0" by (simp add: i)
  from computeRectangularPatch_partial_result [OF r bad] r i
  show ?thesis unfolding input_def [symmetric] by simp
qed

theorem feed_inset_iff_witness:
  "\<exists>r. computeRectangularPatch \<lparr>epsilonR = Fin 4.4, hM = Fin 0.0016, frHz = Fin 2400000000\<rparr>
        = Some r
     \<and> (y0_50ohm r \<noteq> None \<longleftrightarrow> Fin 50 \<le> RinAtEdge r \<and> RinAtEdge r < Fin (10 ^ 10))
     \<and> (Fin 50 \<le> RinAtEdge r \<and> RinAtEdge r < Fin (10 ^ 10) \<longrightarrow>
           y0_50ohm r
           = Some ((L r / Math_PI) * Math_acos (Math_sqrt (Fin 50 / RinAtEdge r))))"
proof -
  from computeRectangularPatch_in_range [of 2400000000 "4.4" "0.0016"]
  obtain r where r: "computeRectangularPatch
      \<lparr>epsilonR = Fin 4.4, hM = Fin 0.0016, frHz = Fin 2400000000\<rparr> = Some r"
    by auto
  from feed_inset_iff [OF r] r show ?thesis by blast
qed

section \<open>The reverse solve of the circular patch\<close>

lemma expandFLow_terminates:
  assumes "0 < x" "x * 10 ^ 7 \<le> 2 ^ n"
  shows "\<exists>y. 0 < y \<and> y \<le> x \<and> expandFLow am h e (Fin x) = Some (Fin y)"
  using assms
proof (induction n arbitrary: x)
  case 0
  then have "\<not> Fin (1 / 10 ^ 7) < Fin x" by (simp add: field_simps)
  then have "expandFLow am h e (Fin x) = Some (Fin x)"
    by (subst expandFLow.simps) simp
  with 0 show ?case by auto
next
  case (Suc n)
  show ?case
  proof (cases "am \<le> physicalRadius (Fin x) h e \<and> Fin (1 / 10 ^ 7) < Fin x")
    case True
    have "0 < x / 2" "x / 2 * 10 ^ 7 \<le> 2 ^ n" using Suc.prems by simp_all
    from Suc.IH [OF this] obtain y where y: "0 < y" "y \<le> x / 2"
      "expandFLow am h e (Fin (x / 2)) = Some (Fin y)" by blast
    have "expandFLow am h e (Fin x) = expandFLow am h e (Fin (x / 2))"
      using True by (subst expandFLow.simps) simp
    with y Suc.prems(1) show ?thesis by (intro exI [of _ y]) simp
  next
    case False
    then have "expandFLow am h e (Fin x) = Some (Fin x)"
      by (subst expandFLow.simps) auto
    with Suc.prems show ?thesis by auto
  qed
qed

lemma expandFHigh_terminates:
  assumes "0 < x" "1 / 2 \<le> x * 2 ^ n"
  shows "\<exists>y. x \<le> y \<and> y \<le> max x 1 \<and> expandFHigh am h e (Fin x) = Some (Fin y)"
  using assms
proof (induction n arbitrary: x)
  case 0
  then have "\<not> Fin x < Fin 0.5" by simp
  then have "expandFHigh am h e (Fin x) = Some (Fin x)"
    by (subst expandFHigh.simps) simp
  then show ?case by auto
next
  case (Suc n)
  show ?case
  proof (cases "physicalRadius (Fin x) h e \<le> am \<and> Fin x < Fin 0.5")
    case True
    have "0 < x * 2" "1 / 2 \<le> x * 2 * 2 ^ n" using Suc.prems by (simp_all add: mult_ac)
    from Suc.IH [OF this] obtain y where y: "x * 2 \<le> y" "y \<le> max (x * 2) 1"
      "expandFHigh am h e (Fin (x * 2)) = Some (Fin y)" by blast
    have "expandFHigh am h e (Fin x) = expandFHigh am h e (Fin (x * 2))"
      using True by (subst expandFHigh.simps) simp
    moreover have "x * 2 \<le> 1" using True by simp
    ultimately show ?thesis using y Suc.prems(1) by (intro exI [of _ y]) simp
  next
    case False
    then have "expandFHigh am h e (Fin x) = Some (Fin x)"
      by (subst expandFHigh.simps) auto
    then show ?thesis by auto
  qed
qed

lemma bracket_loops:
  "\<exists>lo hi. 0 < lo \<and> lo \<le> 1 / 10 ^ 5 \<and> 1 / 10 \<le> hi \<and> hi \<le> 1
     \<and> expandFLow am h e (Fin (1 / 10 ^ 5)) = Some (Fin lo)
     \<and> expandFHigh am h e (Fin 0.1) = Some (Fin hi)"
proof -
  from expandFLow_terminates [of "1 / 10 ^ 5" 7 am h e]
  obtain lo where "0 < lo" "lo \<le> 1 / 10 ^ 5"
    "expandFLow am h e (Fin (1 / 10 ^ 5)) = Some (Fin lo)" by auto
  moreover from expandFHigh_terminates [of "0.1" 3 am h e]
  obtain hi where "0.1 \<le> hi" "hi \<le> 1" "expandFHigh am h e (Fin 0.1) = Some (Fin hi)"
    by auto
  ultimately show ?thesis by (intro exI [of _ lo] exI [of _ hi]) simp
qed

lemma frequency_of_F:
  assumes "0 < m" "1 \<le> e" "0 < h"
  shows "Fin 87910000 / (Fin m * Math_sqrt (Fin e)) = Fin (87910000 / (m * sqrt e))"
    and "0 < 87910000 / (m * sqrt e)"
    and "\<exists>r. computeCircularPatch
               \<lparr>epsilonR = Fin e, hM = Fin h, frHz = Fin (87910000 / (m * sqrt e))\<rparr> = Some r
            \<and> a r \<le> a_e r"
proof -
  have "0 < sqrt e" using assms by simp
  then have pos: "0 < m * sqrt e" using assms by simp
  then have "m * sqrt e \<noteq> 0" by (rule pos_imp_nonzero)
  then show "Fin 87910000 / (Fin m * Math_sqrt (Fin e)) = Fin (87910000 / (m * sqrt e))"
    using assms by (simp del: mult_eq_0_iff)
  show f: "0 < 87910000 / (m * sqrt e)" using pos by simp
  show "\<exists>r. computeCircularPatch
               \<lparr>epsilonR = Fin e, hM = Fin h, frHz = Fin (87910000 / (m * sqrt e))\<rparr> = Some r
            \<and> a r \<le> a_e r"
    using f assms(2,3) by (rule computeCircularPatch_forward_radii)
qed

declare bisect_mid.simps [simp del]

lemma bisect_mid_bounds:
  assumes "lo \<le> hi"
  shows "lo \<le> bisect_mid am h e i lo hi \<and> bisect_mid am h e i lo hi \<le> hi"
  using assms
proof (induction "80 - i" arbitrary: i lo hi)
  case 0
  then have "bisect_mid am h e i lo hi = (lo + hi) / 2"
    by (subst bisect_mid.simps) simp
  with 0 show ?case by simp
next
  case (Suc d)
  then have lt: "i < 80" and d: "d = 80 - (i + 1)" by auto
  define m where "m = (lo + hi) / 2"
  have m: "lo \<le> m" "m \<le> hi" using Suc.prems by (simp_all add: m_def)
  note up = Suc.hyps(1) [OF d m(2)]
  note dn = Suc.hyps(1) [OF d m(1)]
  have bm: "bisect_mid am h e i lo hi
    = (if \<bar>physicalRadius_real m h e - am\<bar> < 1 / 10 ^ 12 * am then m
       else if physicalRadius_real m h e < am then bisect_mid am h e (i + 1) m hi
       else bisect_mid am h e (i + 1) lo m)"
    using lt by (subst bisect_mid.simps) (simp add: Let_def m_def)
  show ?case unfolding bm using m up dn by simp
qed




lemma physicalRadius_infinite_height:
  assumes "0 < x" "1 \<le> e"
  shows "physicalRadius (Fin x) PInf (Fin e) = Fin 0"
proof -
  have 1: "(Math_PI * Fin x) / (Fin 2 * PInf) + Fin 1.7726 = Fin 1.7726"
    by (simp add: Math_PI_def number_ops)
  have 2: "Math_log (Fin 1.7726) = Fin (ln 1.7726)" by simp
  have "0 < pi * e * x" using assms by simp
  then have c: "\<not> pi * e * x < 0" by simp
  have "(Fin 2 * PInf) / (Math_PI * Fin e * Fin x) = PInf"
    using c by (simp add: Math_PI_def number_ops del: mult_less_0_iff)
  moreover have "(0::real) < ln 1.7726" by simp
  ultimately have 3: "Fin 1 + (Fin 2 * PInf) / (Math_PI * Fin e * Fin x) * Fin (ln 1.7726) = PInf"
    by (simp add: number_ops)
  show ?thesis
    unfolding physicalRadius_def Let_def 1 2 3 by (simp add: number_ops)
qed

lemma forward_at_midpoint:
  assumes "0 < m" "1 \<le> e" "\<not> height \<le> Fin 0"
  shows "\<exists>r. computeCircularPatch
               \<lparr>epsilonR = Fin e, hM = height,
                  frHz = Fin 87910000 / (Fin m * Math_sqrt (Fin e))\<rparr> = Some r"
    and "Fin 0 < Fin 87910000 / (Fin m * Math_sqrt (Fin e))"
    and "isFinite (Fin 87910000 / (Fin m * Math_sqrt (Fin e)))"
proof -
  have one: "(0::real) < 1" by simp
  note fq = frequency_of_F(1,2) [OF assms(1,2) one]
  have "\<not> (Fin (87910000 / (m * sqrt e)) \<le> Fin 0 \<or> Fin e < Fin 1 \<or> height \<le> Fin 0)"
    using fq(2) assms(2,3) by simp
  from computeCircularPatch_Some
    [of "\<lparr>epsilonR = Fin e, hM = height, frHz = Fin (87910000 / (m * sqrt e))\<rparr>"] this
  show "\<exists>r. computeCircularPatch
               \<lparr>epsilonR = Fin e, hM = height,
                  frHz = Fin 87910000 / (Fin m * Math_sqrt (Fin e))\<rparr> = Some r"
    unfolding fq(1) by auto
  show "Fin 0 < Fin 87910000 / (Fin m * Math_sqrt (Fin e))"
    unfolding fq(1) using fq(2) by simp
  show "isFinite (Fin 87910000 / (Fin m * Math_sqrt (Fin e)))"
    unfolding fq(1) by simp
qed

lemma bisection_returns:
  assumes "1 \<le> e" "\<not> height \<le> Fin 0" "0 < lo" "lo \<le> hi"
  shows "\<exists>m r. lo \<le> m \<and> m \<le> hi
     \<and> bisection \<lparr>epsilonR = Fin e, hM = height, aM = target\<rparr> i (Fin lo) (Fin hi)
         = Some (Fin 87910000 / (Fin m * Math_sqrt (Fin e)), r)
     \<and> computeCircularPatch
          \<lparr>epsilonR = Fin e, hM = height,
             frHz = Fin 87910000 / (Fin m * Math_sqrt (Fin e))\<rparr> = Some r"
  using assms(3,4)
proof (induction "80 - i" arbitrary: i lo hi)
  case 0
  define m where "m = (lo + hi) / 2"
  have m: "0 < m" "lo \<le> m" "m \<le> hi" using 0 by (simp_all add: m_def)
  have mid: "(Fin lo + Fin hi) / Fin 2 = Fin m" by (simp add: m_def)
  from forward_at_midpoint(1) [OF m(1) assms(1,2)]
  obtain r where r: "computeCircularPatch
      \<lparr>epsilonR = Fin e, hM = height,
         frHz = Fin 87910000 / (Fin m * Math_sqrt (Fin e))\<rparr> = Some r" by blast
  have "bisection \<lparr>epsilonR = Fin e, hM = height, aM = target\<rparr> i (Fin lo) (Fin hi)
        = Some (Fin 87910000 / (Fin m * Math_sqrt (Fin e)), r)"
    using 0(1) by (subst bisection.simps) (simp only: Let_def mid r
        CircularPatchInputReverse.simps Substrate.simps option.case, simp)
  with r m show ?case by blast
next
  case (Suc d)
  then have lt: "i < 80" and d: "d = 80 - (i + 1)" by auto
  define m where "m = (lo + hi) / 2"
  have m: "0 < m" "lo \<le> m" "m \<le> hi" using Suc.prems by (simp_all add: m_def)
  have mid: "(Fin lo + Fin hi) / Fin 2 = Fin m" by (simp add: m_def)
  define close where "close \<longleftrightarrow>
    \<bar>physicalRadius (Fin m) height (Fin e) - target\<bar> < Fin (1 / 10 ^ 12) * target"
  define below where "below \<longleftrightarrow> physicalRadius (Fin m) height (Fin e) < target"
  have unfold: "bisection \<lparr>epsilonR = Fin e, hM = height, aM = target\<rparr> i (Fin lo) (Fin hi)
    = (if close then
         (case computeCircularPatch
                 \<lparr>epsilonR = Fin e, hM = height,
                    frHz = Fin 87910000 / (Fin m * Math_sqrt (Fin e))\<rparr> of
            None \<Rightarrow> None
          | Some result \<Rightarrow> Some (Fin 87910000 / (Fin m * Math_sqrt (Fin e)), result))
       else if below
         then bisection \<lparr>epsilonR = Fin e, hM = height, aM = target\<rparr> (i + 1) (Fin m) (Fin hi)
         else bisection \<lparr>epsilonR = Fin e, hM = height, aM = target\<rparr> (i + 1) (Fin lo) (Fin m))"
    using lt unfolding close_def below_def
    by (subst bisection.simps) (simp only: Let_def mid
        CircularPatchInputReverse.simps Substrate.simps if_True)
  show ?case
  proof (cases close)
    case True
    from forward_at_midpoint(1) [OF m(1) assms(1,2)]
    obtain r where r: "computeCircularPatch
        \<lparr>epsilonR = Fin e, hM = height,
           frHz = Fin 87910000 / (Fin m * Math_sqrt (Fin e))\<rparr> = Some r" by blast
    have "bisection \<lparr>epsilonR = Fin e, hM = height, aM = target\<rparr> i (Fin lo) (Fin hi)
          = Some (Fin 87910000 / (Fin m * Math_sqrt (Fin e)), r)"
      unfolding unfold using True by (simp only: if_True r option.case)
    with r m show ?thesis by blast
  next
    case False
    show ?thesis
    proof (cases below)
      case True
      from Suc.hyps(1) [OF d m(1,3)]
      obtain m' r where "m \<le> m'" "m' \<le> hi"
        "bisection \<lparr>epsilonR = Fin e, hM = height, aM = target\<rparr> (i + 1) (Fin m) (Fin hi)
         = Some (Fin 87910000 / (Fin m' * Math_sqrt (Fin e)), r)"
        "computeCircularPatch
          \<lparr>epsilonR = Fin e, hM = height,
             frHz = Fin 87910000 / (Fin m' * Math_sqrt (Fin e))\<rparr> = Some r"
        by blast
      moreover have "bisection \<lparr>epsilonR = Fin e, hM = height, aM = target\<rparr> i (Fin lo) (Fin hi)
          = bisection \<lparr>epsilonR = Fin e, hM = height, aM = target\<rparr> (i + 1) (Fin m) (Fin hi)"
        unfolding unfold using False True by simp
      ultimately show ?thesis using m(2) by (intro exI [of _ m'] exI [of _ r]) simp
    next
      case notbelow: False
      from Suc.hyps(1) [OF d Suc.prems(1) m(2)]
      obtain m' r where "lo \<le> m'" "m' \<le> m"
        "bisection \<lparr>epsilonR = Fin e, hM = height, aM = target\<rparr> (i + 1) (Fin lo) (Fin m)
         = Some (Fin 87910000 / (Fin m' * Math_sqrt (Fin e)), r)"
        "computeCircularPatch
          \<lparr>epsilonR = Fin e, hM = height,
             frHz = Fin 87910000 / (Fin m' * Math_sqrt (Fin e))\<rparr> = Some r"
        by blast
      moreover have "bisection \<lparr>epsilonR = Fin e, hM = height, aM = target\<rparr> i (Fin lo) (Fin hi)
          = bisection \<lparr>epsilonR = Fin e, hM = height, aM = target\<rparr> (i + 1) (Fin lo) (Fin m)"
        unfolding unfold using False notbelow by simp
      ultimately show ?thesis using m(3) by (intro exI [of _ m'] exI [of _ r]) simp
    qed
  qed
qed

lemma computeCircularPatchReverse_branches:
  assumes "\<not> target \<le> Fin 0" "1 \<le> e" "\<not> height \<le> Fin 0"
    and "expandFLow target height (Fin e) (Fin (1 / 10 ^ 5)) = Some (Fin lo)"
    and "expandFHigh target height (Fin e) (Fin 0.1) = Some (Fin hi)"
  shows "computeCircularPatchReverse \<lparr>epsilonR = Fin e, hM = height, aM = target\<rparr>
         = (if physicalRadius (Fin lo) height (Fin e) > target
               \<or> physicalRadius (Fin hi) height (Fin e) < target
            then Some None
            else Some (bisection \<lparr>epsilonR = Fin e, hM = height, aM = target\<rparr> 0
                         (Fin lo) (Fin hi)))"
proof -
  have guard: "\<not> (target \<le> Fin 0 \<or> Fin e < Fin 1 \<or> height \<le> Fin 0)"
    using assms(1-3) by simp
  show ?thesis
    unfolding computeCircularPatchReverse_def Let_def
    by (simp only: CircularPatchInputReverse.simps Substrate.simps guard if_False assms(4,5)
          option.case)
qed

text \<open>
  Claim C3, for a finite permittivity. On every input that passes the guard
  \<^verbatim>\<open>aM <= 0 || epsilonR < 1 || hM <= 0\<close> with a finite \<open>epsilonR\<close>, which every valid input
  (\<open>aM > 0\<close>, \<open>epsilonR \<ge> 1\<close>, \<open>hM > 0\<close>) with a finite \<open>epsilonR\<close> does, the two loops
  that widen the bracket end, with \<open>F_low\<close> in \<open>(0, 1e-5]\<close> and \<open>F_high\<close> in \<open>[0.1, 1]\<close>;
  \<^verbatim>\<open>computeCircularPatchReverse\<close> returns \<^verbatim>\<open>null\<close> if and only if the test of the source,
  \<^verbatim>\<open>physicalRadius(FLow) > aM || physicalRadius(FHigh) < aM\<close>, succeeds on these bounds;
  and when the test fails the solver returns the result of the bisection loop started at
  these bounds, which is never \<^verbatim>\<open>null\<close>: a finite positive frequency and the record of the
  forward solver at that frequency.

  A bracket \<open>physicalRadius F_low \<le> aM \<le> physicalRadius F_high\<close> makes both comparisons
  of the test false, so a bracket always gives a result. The condition for \<^verbatim>\<open>null\<close> is
  the test and not the absence of a bracket: both comparisons are false as well on a
  radius that is not-a-number, and the bisection then runs its 80 iterations and returns
  the frequency of its last midpoint. The proof follows the branches of the source and
  uses no value of \<^verbatim>\<open>physicalRadius\<close>, so the statement does not rest on the exactness of
  the arithmetic of this model: whatever the comparisons of the loop answer, the frequency
  \<open>8.791e7 / (F * sqrt epsilonR)\<close> is taken at a midpoint \<open>F\<close> between the bounds, where it
  is finite and positive, which is all the forward solver asks of it.
\<close>

theorem circular_reverse_null_iff_no_bracket:
  assumes "\<not> target \<le> Fin 0" "1 \<le> e" "\<not> height \<le> Fin 0"
  shows "\<exists>lo hi. 0 < lo \<and> lo \<le> 1 / 10 ^ 5 \<and> 1 / 10 \<le> hi \<and> hi \<le> 1
     \<and> expandFLow target height (Fin e) (Fin (1 / 10 ^ 5)) = Some (Fin lo)
     \<and> expandFHigh target height (Fin e) (Fin 0.1) = Some (Fin hi)
     \<and> (computeCircularPatchReverse \<lparr>epsilonR = Fin e, hM = height, aM = target\<rparr> = Some None
          \<longleftrightarrow> physicalRadius (Fin lo) height (Fin e) > target
               \<or> physicalRadius (Fin hi) height (Fin e) < target)
     \<and> (\<not> (physicalRadius (Fin lo) height (Fin e) > target
             \<or> physicalRadius (Fin hi) height (Fin e) < target) \<longrightarrow>
          (\<exists>f r. Fin 0 < f \<and> isFinite f
             \<and> bisection \<lparr>epsilonR = Fin e, hM = height, aM = target\<rparr> 0 (Fin lo) (Fin hi)
                   = Some (f, r)
             \<and> computeCircularPatchReverse \<lparr>epsilonR = Fin e, hM = height, aM = target\<rparr>
                   = Some (Some (f, r))
             \<and> computeCircularPatch \<lparr>epsilonR = Fin e, hM = height, frHz = f\<rparr> = Some r))"
proof -
  from bracket_loops [of target height "Fin e"]
  obtain lo hi where lh: "0 < lo" "lo \<le> 1 / 10 ^ 5" "1 / 10 \<le> hi" "hi \<le> 1"
    "expandFLow target height (Fin e) (Fin (1 / 10 ^ 5)) = Some (Fin lo)"
    "expandFHigh target height (Fin e) (Fin 0.1) = Some (Fin hi)"
    by blast
  have le: "lo \<le> hi" using lh(2,3) by simp
  define test where "test \<longleftrightarrow> physicalRadius (Fin lo) height (Fin e) > target
               \<or> physicalRadius (Fin hi) height (Fin e) < target"
  note rev = computeCircularPatchReverse_branches [OF assms lh(5,6), folded test_def]
  from bisection_returns [OF assms(2,3) lh(1) le, of target 0]
  obtain m r where mr: "lo \<le> m" "m \<le> hi"
    "bisection \<lparr>epsilonR = Fin e, hM = height, aM = target\<rparr> 0 (Fin lo) (Fin hi)
       = Some (Fin 87910000 / (Fin m * Math_sqrt (Fin e)), r)"
    "computeCircularPatch
       \<lparr>epsilonR = Fin e, hM = height,
          frHz = Fin 87910000 / (Fin m * Math_sqrt (Fin e))\<rparr> = Some r"
    by blast
  have "0 < m" using lh(1) mr(1) by simp
  note f = forward_at_midpoint(2,3) [OF this assms(2,3)]
  have 1: "computeCircularPatchReverse \<lparr>epsilonR = Fin e, hM = height, aM = target\<rparr> = Some None
          \<longleftrightarrow> test"
    unfolding rev mr(3) by simp
  have 2: "\<not> test \<longrightarrow>
          (\<exists>f r. Fin 0 < f \<and> isFinite f
             \<and> bisection \<lparr>epsilonR = Fin e, hM = height, aM = target\<rparr> 0 (Fin lo) (Fin hi)
                   = Some (f, r)
             \<and> computeCircularPatchReverse \<lparr>epsilonR = Fin e, hM = height, aM = target\<rparr>
                   = Some (Some (f, r))
             \<and> computeCircularPatch \<lparr>epsilonR = Fin e, hM = height, frHz = f\<rparr> = Some r)"
  proof
    assume "\<not> test"
    then have "computeCircularPatchReverse \<lparr>epsilonR = Fin e, hM = height, aM = target\<rparr>
      = Some (Some (Fin 87910000 / (Fin m * Math_sqrt (Fin e)), r))"
      unfolding rev mr(3) by simp
    with mr f show "\<exists>f r. Fin 0 < f \<and> isFinite f
             \<and> bisection \<lparr>epsilonR = Fin e, hM = height, aM = target\<rparr> 0 (Fin lo) (Fin hi)
                   = Some (f, r)
             \<and> computeCircularPatchReverse \<lparr>epsilonR = Fin e, hM = height, aM = target\<rparr>
                   = Some (Some (f, r))
             \<and> computeCircularPatch \<lparr>epsilonR = Fin e, hM = height, frHz = f\<rparr> = Some r"
      by blast
  qed
  from lh 1 2 show ?thesis
    unfolding test_def by (intro exI [of _ lo] exI [of _ hi]) blast
qed

lemma physicalRadius_PInf:
  assumes "0 < x" "0 < h"
  shows "physicalRadius (Fin x) (Fin h) PInf = Fin x"
proof -
  have arg: "0 < pi * x / (2 * h) + 1.7726" using assms by (simp add: add_pos_pos)
  have 1: "(Math_PI * Fin x) / (Fin 2 * Fin h) + Fin 1.7726 = Fin (pi * x / (2 * h) + 1.7726)"
    using assms by (simp add: Math_PI_def)
  have 2: "Math_log (Fin (pi * x / (2 * h) + 1.7726)) = Fin (ln (pi * x / (2 * h) + 1.7726))"
    using arg by simp
  have 3: "(Fin 2 * Fin h) / (Math_PI * PInf * Fin x) = Fin 0"
    using assms by (simp add: Math_PI_def number_ops)
  show ?thesis
    unfolding physicalRadius_def Let_def 1 2 3 by simp
qed

lemma bisection_PInf:
  assumes "0 < lo" "0 < hi"
  shows "bisection \<lparr>epsilonR = PInf, hM = Fin h, aM = am\<rparr> i (Fin lo) (Fin hi) = None"
  using assms
proof (induction "80 - i" arbitrary: i lo hi)
  case 0
  have m: "0 < (lo + hi) / 2" using 0 by simp
  have f: "Fin 87910000 / (Fin ((lo + hi) / 2) * Math_sqrt PInf) = Fin 0"
    using m by (simp add: number_ops)
  have n: "computeCircularPatch \<lparr>epsilonR = PInf, hM = Fin h, frHz = Fin 0\<rparr> = None"
    by (simp add: computeCircularPatch_def)
  have mid: "(Fin lo + Fin hi) / Fin 2 = Fin ((lo + hi) / 2)" by simp
  show ?case
    using 0(1) by (subst bisection.simps) (simp only: Let_def mid f n
        CircularPatchInputReverse.simps Substrate.simps option.case, simp)
next
  case (Suc d)
  then have lt: "i < 80" and d: "d = 80 - (i + 1)" by auto
  have m: "0 < (lo + hi) / 2" using Suc.prems by simp
  have f: "Fin 87910000 / (Fin ((lo + hi) / 2) * Math_sqrt PInf) = Fin 0"
    using m by (simp add: number_ops)
  have n: "computeCircularPatch \<lparr>epsilonR = PInf, hM = Fin h, frHz = Fin 0\<rparr> = None"
    by (simp add: computeCircularPatch_def)
  have mid: "(Fin lo + Fin hi) / Fin 2 = Fin ((lo + hi) / 2)" by simp
  note ih1 = Suc.hyps(1) [OF d m Suc.prems(2)]
  note ih2 = Suc.hyps(1) [OF d Suc.prems(1) m]
  show ?case
    using lt by (subst bisection.simps) (simp only: Let_def mid f n ih1 ih2
        CircularPatchInputReverse.simps Substrate.simps option.case if_True if_cancel)
qed

text \<open>
  An infinite permittivity passes the guard \<^verbatim>\<open>epsilonR < 1\<close>. The physical radius is then
  \<open>F\<close> itself, so the bracket \<open>[1e-5, 0.1]\<close> holds the radius \<open>0.01\<close> without any
  widening; but every frequency \<open>8.791e7 / (F * sqrt epsilonR)\<close> is zero, the forward solver
  rejects it, and the reverse solver returns \<^verbatim>\<open>null\<close> although a bracket was found.
\<close>

theorem circular_reverse_infinite_permittivity_counterexample:
  "Fin 0 < Fin 0.01 \<and> Fin 1 \<le> PInf \<and> Fin 0 < Fin 0.0016
   \<and> expandFLow (Fin 0.01) (Fin 0.0016) PInf (Fin (1 / 10 ^ 5)) = Some (Fin (1 / 10 ^ 5))
   \<and> expandFHigh (Fin 0.01) (Fin 0.0016) PInf (Fin 0.1) = Some (Fin 0.1)
   \<and> physicalRadius (Fin (1 / 10 ^ 5)) (Fin 0.0016) PInf \<le> Fin 0.01
   \<and> Fin 0.01 \<le> physicalRadius (Fin 0.1) (Fin 0.0016) PInf
   \<and> computeCircularPatchReverse \<lparr>epsilonR = PInf, hM = Fin 0.0016, aM = Fin 0.01\<rparr>
       = Some None"
proof -
  have pl: "physicalRadius (Fin (1 / 10 ^ 5)) (Fin 0.0016) PInf = Fin (1 / 10 ^ 5)"
    by (rule physicalRadius_PInf) simp_all
  have ph: "physicalRadius (Fin 0.1) (Fin 0.0016) PInf = Fin 0.1"
    by (rule physicalRadius_PInf) simp_all
  have "\<not> (Fin 0.01 \<le> physicalRadius (Fin (1 / 10 ^ 5)) (Fin 0.0016) PInf
             \<and> Fin (1 / 10 ^ 7) < Fin (1 / 10 ^ 5))"
    unfolding pl by simp
  then have lo: "expandFLow (Fin 0.01) (Fin 0.0016) PInf (Fin (1 / 10 ^ 5))
                 = Some (Fin (1 / 10 ^ 5))"
    by (subst expandFLow.simps) (simp only: if_False)
  have "\<not> (physicalRadius (Fin 0.1) (Fin 0.0016) PInf \<le> Fin 0.01 \<and> Fin 0.1 < Fin 0.5)"
    unfolding ph by simp
  then have hi: "expandFHigh (Fin 0.01) (Fin 0.0016) PInf (Fin 0.1) = Some (Fin 0.1)"
    by (subst expandFHigh.simps) (simp only: if_False)
  have guard: "\<not> (Fin 0.01 \<le> Fin 0 \<or> PInf < Fin 1 \<or> Fin 0.0016 \<le> Fin 0)"
    by (simp add: number_ops)
  have check: "\<not> (Fin 0.01 < physicalRadius (Fin (1 / 10 ^ 5)) (Fin 0.0016) PInf
                \<or> physicalRadius (Fin 0.1) (Fin 0.0016) PInf < Fin 0.01)"
    unfolding pl ph by simp
  have bis: "bisection \<lparr>epsilonR = PInf, hM = Fin 0.0016, aM = Fin 0.01\<rparr> 0
               (Fin (1 / 10 ^ 5)) (Fin 0.1) = None"
    by (rule bisection_PInf) simp_all
  have "computeCircularPatchReverse \<lparr>epsilonR = PInf, hM = Fin 0.0016, aM = Fin 0.01\<rparr>
        = Some None"
    unfolding computeCircularPatchReverse_def Let_def
    by (simp only: CircularPatchInputReverse.simps Substrate.simps guard if_False lo hi
          option.case check bis)
  moreover have "Fin 1 \<le> PInf" by (simp add: number_ops)
  moreover have "physicalRadius (Fin (1 / 10 ^ 5)) (Fin 0.0016) PInf \<le> Fin 0.01"
    "Fin 0.01 \<le> physicalRadius (Fin 0.1) (Fin 0.0016) PInf"
    unfolding pl ph by simp_all
  ultimately show ?thesis using lo hi by simp
qed

lemma physicalRadius_real_lower:
  assumes "0 < f" "0 < h" "1 \<le> e" "4 * h \<le> f"
  shows "2 * f / 3 \<le> physicalRadius_real f h e"
proof -
  define la where "la = pi * f / (2 * h) + 1.7726"
  define c where "c = 2 * h / (pi * e * f)"
  define d where "d = 1 + c * ln la"
  have pef: "0 < pi * e * f" using assms by simp
  have c0: "0 < c" unfolding c_def using assms pef by simp
  have la: "0 < la" unfolding la_def using assms by (simp add: add_pos_pos)
  have "ln la \<le> la - 1" using la by (rule ln_le_minus_one)
  then have "c * ln la \<le> c * (la - 1)" using c0 by (simp only: mult_le_cancel_left_pos)
  also have "c * (la - 1) = c * (pi * f / (2 * h)) + 0.7726 * c"
    by (simp add: la_def algebra_simps)
  also have "c * (pi * f / (2 * h)) = 1 / e"
    using assms by (simp add: c_def)
  finally have 1: "c * ln la \<le> 1 / e + 0.7726 * c" .
  have "2 * f \<le> pi * e * f"
  proof -
    have "2 * 1 \<le> pi * e" using pi_ge_two assms(3) by (intro mult_mono) simp_all
    then show ?thesis using assms(1) by (simp add: mult_right_mono)
  qed
  then have "c \<le> 2 * h / (2 * f)"
    unfolding c_def using assms by (intro divide_left_mono mult_pos_pos) simp_all
  also have "\<dots> \<le> 1 / 4" using assms by (simp add: field_simps)
  finally have 2: "c \<le> 1 / 4" .
  have 3: "1 / e \<le> 1" using assms by simp
  have "d \<le> (3 / 2)\<^sup>2" unfolding d_def using 1 2 3 by (simp add: power2_eq_square)
  then have "sqrt d \<le> 3 / 2" by (intro real_le_lsqrt) simp_all
  moreover have "1 < d" unfolding d_def c_def la_def
    using assms pef by (intro fringe_factor_gt_1) simp_all
  then have "0 < sqrt d" by simp
  ultimately have "f / (3 / 2) \<le> f / sqrt d"
    using assms(1) by (intro divide_left_mono mult_pos_pos) simp_all
  moreover have "physicalRadius_real f h e = f / sqrt d"
    by (simp add: physicalRadius_real_def d_def c_def la_def)
  ultimately show ?thesis by simp
qed

lemma bracket_example:
  assumes "0 < lo" "lo \<le> 1 / 10 ^ 5" "1 / 10 \<le> hi"
  shows "physicalRadius (Fin lo) (Fin 0.0016) (Fin 4.4) \<le> Fin 0.01
       \<and> Fin 0.01 \<le> physicalRadius (Fin hi) (Fin 0.0016) (Fin 4.4)"
proof -
  have hi: "0 < hi" using assms by simp
  note pl = physicalRadius_Fin [OF assms(1), of "0.0016" "4.4"]
  note ph = physicalRadius_Fin [OF hi, of "0.0016" "4.4"]
  have "2 * hi / 3 \<le> physicalRadius_real hi 0.0016 4.4"
    using hi assms(3) by (intro physicalRadius_real_lower) simp_all
  then have "0.01 \<le> physicalRadius_real hi 0.0016 4.4" using assms(3) by simp
  moreover have "physicalRadius_real lo 0.0016 4.4 \<le> 0.01"
    using pl(3) assms(2) by simp
  ultimately show ?thesis using pl(1) ph(1) by simp
qed

lemma physicalRadius_NaN_height: "physicalRadius f NaN e = NaN"
  by (simp add: physicalRadius_def Let_def)

theorem circular_reverse_null_iff_no_bracket_witness:
  "\<not> Fin 0.01 \<le> Fin 0 \<and> (1::real) \<le> 4.4 \<and> \<not> Fin 0.0016 \<le> Fin 0
   \<and> (\<exists>f r. computeCircularPatchReverse \<lparr>epsilonR = Fin 4.4, hM = Fin 0.0016, aM = Fin 0.01\<rparr>
              = Some (Some (f, r))
          \<and> Fin 0 < f \<and> isFinite f
          \<and> computeCircularPatch \<lparr>epsilonR = Fin 4.4, hM = Fin 0.0016, frHz = f\<rparr> = Some r)
   \<and> computeCircularPatchReverse \<lparr>epsilonR = Fin 4.4, hM = Fin 0.0016, aM = Fin 1\<rparr>
       = Some None
   \<and> computeCircularPatchReverse \<lparr>epsilonR = Fin 4.4, hM = PInf, aM = Fin 0.01\<rparr>
       = Some None
   \<and> (\<exists>lo hi f r.
          expandFLow (Fin 0.01) NaN (Fin 4.4) (Fin (1 / 10 ^ 5)) = Some (Fin lo)
          \<and> expandFHigh (Fin 0.01) NaN (Fin 4.4) (Fin 0.1) = Some (Fin hi)
          \<and> \<not> (physicalRadius (Fin lo) NaN (Fin 4.4) \<le> Fin 0.01
                 \<and> Fin 0.01 \<le> physicalRadius (Fin hi) NaN (Fin 4.4))
          \<and> computeCircularPatchReverse \<lparr>epsilonR = Fin 4.4, hM = NaN, aM = Fin 0.01\<rparr>
              = Some (Some (f, r)))"
proof -
  have pos: "\<not> Fin 0.01 \<le> Fin 0" "(1::real) \<le> 4.4" "\<not> Fin 0.0016 \<le> Fin 0" "\<not> Fin 1 \<le> Fin 0"
    "\<not> PInf \<le> Fin 0" "\<not> NaN \<le> Fin 0"
    by (simp_all add: number_ops)
  from circular_reverse_null_iff_no_bracket [OF pos(1,2,3)]
  obtain lo hi where lh: "0 < lo" "lo \<le> 1 / 10 ^ 5" "1 / 10 \<le> hi"
    and found: "\<not> (physicalRadius (Fin lo) (Fin 0.0016) (Fin 4.4) > Fin 0.01
             \<or> physicalRadius (Fin hi) (Fin 0.0016) (Fin 4.4) < Fin 0.01) \<longrightarrow>
          (\<exists>f r. computeCircularPatchReverse
                    \<lparr>epsilonR = Fin 4.4, hM = Fin 0.0016, aM = Fin 0.01\<rparr> = Some (Some (f, r))
             \<and> Fin 0 < f \<and> isFinite f
             \<and> computeCircularPatch \<lparr>epsilonR = Fin 4.4, hM = Fin 0.0016, frHz = f\<rparr> = Some r)"
    by blast
  have hi: "0 < hi" using lh(3) by simp
  note pl = physicalRadius_Fin(1) [OF lh(1), of "0.0016" "4.4"]
  note ph = physicalRadius_Fin(1) [OF hi, of "0.0016" "4.4"]
  from bracket_example [OF lh]
  have "\<not> (physicalRadius (Fin lo) (Fin 0.0016) (Fin 4.4) > Fin 0.01
             \<or> physicalRadius (Fin hi) (Fin 0.0016) (Fin 4.4) < Fin 0.01)"
    using pl ph by simp
  with found have 1: "\<exists>f r. computeCircularPatchReverse
                    \<lparr>epsilonR = Fin 4.4, hM = Fin 0.0016, aM = Fin 0.01\<rparr> = Some (Some (f, r))
             \<and> Fin 0 < f \<and> isFinite f
             \<and> computeCircularPatch \<lparr>epsilonR = Fin 4.4, hM = Fin 0.0016, frHz = f\<rparr> = Some r"
    by blast
  from circular_reverse_null_iff_no_bracket [OF pos(4,2,3)]
  obtain lo' hi' where lh': "1 / 10 \<le> hi'" "hi' \<le> 1"
    and null: "computeCircularPatchReverse \<lparr>epsilonR = Fin 4.4, hM = Fin 0.0016, aM = Fin 1\<rparr>
          = Some None
          \<longleftrightarrow> physicalRadius (Fin lo') (Fin 0.0016) (Fin 4.4) > Fin 1
               \<or> physicalRadius (Fin hi') (Fin 0.0016) (Fin 4.4) < Fin 1"
    by blast
  have "0 < hi'" using lh' by simp
  note ph' = physicalRadius_Fin [OF this, of "0.0016" "4.4"]
  have "physicalRadius (Fin hi') (Fin 0.0016) (Fin 4.4) < Fin 1"
    using ph'(1,3) lh'(2) by simp
  with null have 2: "computeCircularPatchReverse
      \<lparr>epsilonR = Fin 4.4, hM = Fin 0.0016, aM = Fin 1\<rparr> = Some None"
    by simp
  from circular_reverse_null_iff_no_bracket [OF pos(1,2,5)]
  obtain lo'' hi'' where lh'': "1 / 10 \<le> hi''"
    and null': "computeCircularPatchReverse \<lparr>epsilonR = Fin 4.4, hM = PInf, aM = Fin 0.01\<rparr>
          = Some None
          \<longleftrightarrow> physicalRadius (Fin lo'') PInf (Fin 4.4) > Fin 0.01
               \<or> physicalRadius (Fin hi'') PInf (Fin 4.4) < Fin 0.01"
    by blast
  have "0 < hi''" using lh'' by simp
  then have "physicalRadius (Fin hi'') PInf (Fin 4.4) = Fin 0"
    by (rule physicalRadius_infinite_height) simp
  with null' have 3: "computeCircularPatchReverse
      \<lparr>epsilonR = Fin 4.4, hM = PInf, aM = Fin 0.01\<rparr> = Some None"
    by simp
  from circular_reverse_null_iff_no_bracket [OF pos(1,2,6)]
  obtain lo3 hi3 where loops: 
      "expandFLow (Fin 0.01) NaN (Fin 4.4) (Fin (1 / 10 ^ 5)) = Some (Fin lo3)"
      "expandFHigh (Fin 0.01) NaN (Fin 4.4) (Fin 0.1) = Some (Fin hi3)"
    and found3: "\<not> (physicalRadius (Fin lo3) NaN (Fin 4.4) > Fin 0.01
             \<or> physicalRadius (Fin hi3) NaN (Fin 4.4) < Fin 0.01) \<longrightarrow>
          (\<exists>f r. computeCircularPatchReverse
                    \<lparr>epsilonR = Fin 4.4, hM = NaN, aM = Fin 0.01\<rparr> = Some (Some (f, r)))"
    by blast
  have nan: "physicalRadius (Fin lo3) NaN (Fin 4.4) = NaN" "physicalRadius (Fin hi3) NaN (Fin 4.4) = NaN"
    by (rule physicalRadius_NaN_height)+
  from found3 have "\<exists>f r. computeCircularPatchReverse
                    \<lparr>epsilonR = Fin 4.4, hM = NaN, aM = Fin 0.01\<rparr> = Some (Some (f, r))"
    unfolding nan by simp
  with loops nan have 4: "\<exists>lo hi f r.
          expandFLow (Fin 0.01) NaN (Fin 4.4) (Fin (1 / 10 ^ 5)) = Some (Fin lo)
          \<and> expandFHigh (Fin 0.01) NaN (Fin 4.4) (Fin 0.1) = Some (Fin hi)
          \<and> \<not> (physicalRadius (Fin lo) NaN (Fin 4.4) \<le> Fin 0.01
                 \<and> Fin 0.01 \<le> physicalRadius (Fin hi) NaN (Fin 4.4))
          \<and> computeCircularPatchReverse \<lparr>epsilonR = Fin 4.4, hM = NaN, aM = Fin 0.01\<rparr>
              = Some (Some (f, r))"
    by (intro exI [of _ lo3] exI [of _ hi3]) simp
  from pos(1,2,3) 1 2 3 4 show ?thesis by blast
qed




lemma physicalRadius_NaN [simp]: "physicalRadius NaN h e = NaN"
  by (simp add: physicalRadius_def Let_def)

lemma effectiveRadius_NaN [simp]: "effectiveRadius NaN h e = NaN"
  by (simp add: effectiveRadius_def Let_def)











end
